theory Spec2Isabelle
  imports Main "HOL-Library.Multiset" "HOL-Library.Signed_Division"
begin

section \<open>Data model of the activity store\<close>

text \<open>
  Instants are Unix seconds. The map of raw samples is keyed in the source by the decimal
  rendering of the bucket start (\<open>strconv.FormatInt(t.Unix(), 10)\<close>); the rendering is
  injective, so the model keys the map by the instant itself; a document edited by hand
  could hold keys that are not such renderings, and those are outside the model. Instants
  are unbounded integers, so arithmetic on them does not overflow. A status is the
  source's \<open>int\<close>: \<open>0\<close> is idle, \<open>1\<close> is working.
\<close>

record Config =
  DailyGoalMinutes :: int
  WorkDays :: "int list"

record Range =
  Start :: int
  End :: int
  Status :: int
  Tag :: string
  Note :: string

record Store =
  Bins :: "int \<rightharpoonup> int"
  Ranges :: "Range list"
  Config :: Config
  Tags :: "string list"

definition binMinutes :: int where
  "binMinutes = 5"

definition binSeconds :: int where
  "binSeconds = binMinutes * 60"

section \<open>Bucket clock\<close>

text \<open>
  \<open>floorToBin\<close> truncates to the minute, rounds the minute of the hour down to a multiple
  of \<open>binMinutes\<close> and rebuilds the instant from the civil components with seconds zero.
  Civil components are read in a zone whose offset is a whole multiple of five minutes
  (written here for offset zero).
\<close>

definition truncateMinute :: "int \<Rightarrow> int" where
  "truncateMinute t = t - t mod 60"

definition minuteOf :: "int \<Rightarrow> int" where
  "minuteOf t = (t div 60) mod 60"

definition hourStart :: "int \<Rightarrow> int" where
  "hourStart t = t - t mod 3600"

definition floorToBin :: "int \<Rightarrow> int" where
  "floorToBin t0 =
     (let t = truncateMinute t0;
          m = (minuteOf t div binMinutes) * binMinutes
      in hourStart t + m * 60)"

definition nextBinStart :: "int \<Rightarrow> int" where
  "nextBinStart t = floorToBin t + binSeconds"

section \<open>Activity store: upsert of a raw sample\<close>

definition binStatus :: "(int \<rightharpoonup> int) \<Rightarrow> int \<Rightarrow> int" where
  "binStatus bins k = (case bins k of None \<Rightarrow> 0 | Some v \<Rightarrow> v)"

definition upsertBin :: "Store \<Rightarrow> int \<Rightarrow> bool \<Rightarrow> Store" where
  "upsertBin s binStart working =
     (let k = binStart; cur = binStatus (Bins s) k
      in if working \<and> cur = 0 then s\<lparr>Bins := (Bins s)(k \<mapsto> 1)\<rparr>
         else if cur = 0 \<and> \<not> working then
           (if Bins s k = None then s\<lparr>Bins := (Bins s)(k \<mapsto> 0)\<rparr> else s)
         else s)"

fun upsertAll :: "Store \<Rightarrow> (int \<times> bool) list \<Rightarrow> Store" where
  "upsertAll s [] = s"
| "upsertAll s ((k, w) # obs) = upsertAll (upsertBin s k w) obs"

section \<open>Window resolver\<close>

definition rawInWindow :: "(int \<rightharpoonup> int) \<Rightarrow> int \<Rightarrow> int \<Rightarrow> (int \<rightharpoonup> int)" where
  "rawInWindow bins wstart wend = (\<lambda>t. if \<not> t < wstart \<and> t < wend then bins t else None)"

function rangeLoop ::
  "int \<Rightarrow> int \<Rightarrow> int \<Rightarrow> int \<Rightarrow> int \<Rightarrow> (int \<rightharpoonup> int) \<Rightarrow> (int \<rightharpoonup> int)" where
  "rangeLoop cur rEnd wstart wend st res =
     (if cur < rEnd \<and> cur < wend
      then rangeLoop (cur + binSeconds) rEnd wstart wend st
             (if \<not> cur < wstart then res(cur \<mapsto> st) else res)
      else res)"
  by pat_completeness auto
termination
  by (relation "measure (\<lambda>(cur, rEnd, wstart, wend, st, res). nat (min rEnd wend - cur))")
     (auto simp: binSeconds_def binMinutes_def)

declare rangeLoop.simps [simp del]

fun overlayRanges :: "Range list \<Rightarrow> int \<Rightarrow> int \<Rightarrow> (int \<rightharpoonup> int) \<Rightarrow> (int \<rightharpoonup> int)" where
  "overlayRanges [] wstart wend res = res"
| "overlayRanges (r # rs) wstart wend res =
     overlayRanges rs wstart wend
       (if End r < wstart \<or> \<not> Start r < wend then res
        else rangeLoop (floorToBin (Start r)) (End r) wstart wend (Status r) res)"

definition fetchBins :: "Store \<Rightarrow> int \<Rightarrow> int \<Rightarrow> (int \<rightharpoonup> int)" where
  "fetchBins s wstart wend =
     overlayRanges (Ranges s) wstart wend (rawInWindow (Bins s) wstart wend)"

section \<open>Compactor\<close>

text \<open>
  The source collects the keys of the raw-sample map in the iteration order of a Go map,
  which is unspecified: the model takes that order as the list \<open>order\<close>. The keys are
  then sorted in place by the exchange sort below, scanned left to right into runs, and the
  map is replaced by an empty one.
\<close>

function sortInner :: "nat \<Rightarrow> nat \<Rightarrow> int list \<Rightarrow> int list" where
  "sortInner i j tms =
     (if j < length tms
      then sortInner i (j + 1)
             (if tms ! i > tms ! j then tms[i := tms ! j, j := tms ! i] else tms)
      else tms)"
  by pat_completeness auto
termination
  by (relation "measure (\<lambda>(i, j, tms). length tms - j)") auto

declare sortInner.simps [simp del]

function sortOuter :: "nat \<Rightarrow> int list \<Rightarrow> int list" where
  "sortOuter i tms =
     (if i + 1 < length tms then sortOuter (i + 1) (sortInner i (i + 1) tms) else tms)"
  by pat_completeness auto
termination
proof -
  have len: "length (sortInner i j tms) = length tms" for i j tms
    by (induction i j tms rule: sortInner.induct) (subst sortInner.simps, simp)
  show ?thesis
    by (relation "measure (\<lambda>(i, tms). length tms - i)") (auto simp: len)
qed

declare sortOuter.simps [simp del]

function runEnd :: "(int \<rightharpoonup> int) \<Rightarrow> int list \<Rightarrow> int \<Rightarrow> nat \<Rightarrow> nat" where
  "runEnd bins tms status j =
     (if j + 1 < length tms
      then (let next = tms ! (j + 1); nextStatus = binStatus bins next
            in if nextStatus = status \<and> next - tms ! j = binSeconds
               then runEnd bins tms status (j + 1)
               else j)
      else j)"
  by pat_completeness auto
termination
  by (relation "measure (\<lambda>(bins, tms, status, j). length tms - j)") auto

declare runEnd.simps [simp del]

function emitRuns :: "(int \<rightharpoonup> int) \<Rightarrow> int list \<Rightarrow> nat \<Rightarrow> Range list \<Rightarrow> Range list" where
  "emitRuns bins tms i ranges =
     (if i < length tms
      then (let start = tms ! i;
                status = binStatus bins start;
                j = runEnd bins tms status i;
                end' = tms ! j + binSeconds
            in emitRuns bins tms (j + 1)
                 (ranges @ [\<lparr>Start = start, End = end', Status = status, Tag = [], Note = []\<rparr>]))
      else ranges)"
  by pat_completeness auto
termination
proof -
  have ge: "j \<le> runEnd bins tms status j" for bins tms status j
    by (induction bins tms status j rule: runEnd.induct)
       (subst runEnd.simps, auto simp: Let_def)
  show ?thesis
    by (relation "measure (\<lambda>(bins, tms, i, ranges). length tms - i)")
       (auto simp: less_Suc_eq_le intro: diff_less_mono2 le_imp_less_Suc ge)
qed

declare emitRuns.simps [simp del]

text \<open>
  \<open>order\<close> is the iteration order of the map: every key once. All keys parse, so
  the list of instants has one entry per key. That list is \<open>times\<close> in the source and
  \<open>tms\<close> here, where \<open>times\<close> is multiplication.
\<close>

definition compactBins :: "int list \<Rightarrow> Store \<Rightarrow> Store" where
  "compactBins order s =
     (if card (dom (Bins s)) < 50 then s
      else (let tms = order
            in if length tms = 0 then s
               else (let sorted_times = sortOuter 0 tms
                     in s\<lparr>Ranges := emitRuns (Bins s) sorted_times 0 (Ranges s),
                          Bins := Map.empty\<rparr>)))"

definition iterationOrder :: "(int \<rightharpoonup> int) \<Rightarrow> int list \<Rightarrow> bool" where
  "iterationOrder bins order = (distinct order \<and> set order = dom bins)"


section \<open>Sampling loop\<close>

text \<open>
  One pass of the tracking loop of \<open>main\<close> once the activity probe has answered: the
  sample is upserted into the store, and the store is compacted when it then holds more
  than 100 raw samples. Loading and saving the document are left out.
\<close>

definition sampleTick :: "int list \<Rightarrow> Store \<Rightarrow> int \<Rightarrow> bool \<Rightarrow> Store" where
  "sampleTick order store currentBin working =
     (let store1 = upsertBin store currentBin working
      in if card (dom (Bins store1)) > 100 then compactBins order store1 else store1)"

section \<open>Resolved status sequence of a window\<close>

text \<open>
  \<open>todayTotals\<close>, \<open>reportToday\<close>, \<open>buildTimelineBlocks\<close> and \<open>calculateFocusStats\<close>
  all resolve a window the same way: the sequence \<open>seq\<close> of bucket starts from
  \<open>floorToBin start\<close> up to, not including, \<open>floorToBin end\<close>; a map \<open>status\<close> that
  gives idle to every member of \<open>seq\<close>, overwritten by the entries of \<open>fetchBins\<close>; and a
  pass over \<open>seq\<close> reading \<open>status\<close>. Reading a Go map at an absent key yields \<open>0\<close>,
  which \<open>binStatus\<close> does.
\<close>

function binSeq :: "int \<Rightarrow> int \<Rightarrow> int list" where
  "binSeq cur stop = (if cur < stop then cur # binSeq (cur + binSeconds) stop else [])"
  by pat_completeness auto
termination
  by (relation "measure (\<lambda>(cur, stop). nat (stop - cur))")
     (auto simp: binSeconds_def binMinutes_def)

declare binSeq.simps [simp del]

definition windowSeq :: "int \<Rightarrow> int \<Rightarrow> int list" where
  "windowSeq wstart wend = binSeq (floorToBin wstart) (floorToBin wend)"

definition statusMap :: "Store \<Rightarrow> int \<Rightarrow> int \<Rightarrow> (int \<rightharpoonup> int)" where
  "statusMap s wstart wend =
     (let seq = windowSeq wstart wend;
          status = fold (\<lambda>t m. m(t \<mapsto> 0)) seq Map.empty;
          bins = fetchBins s wstart wend
      in status ++ bins)"

definition resolvedSeq :: "Store \<Rightarrow> int \<Rightarrow> int \<Rightarrow> (int \<times> int) list" where
  "resolvedSeq s wstart wend =
     map (\<lambda>t. (t, binStatus (statusMap s wstart wend) t)) (windowSeq wstart wend)"

text \<open>Midnight of the day of \<open>now\<close>, in the zone of offset zero.\<close>

definition dayStart :: "int \<Rightarrow> int" where
  "dayStart now = now - now mod 86400"

fun totalsLoop :: "(int \<rightharpoonup> int) \<Rightarrow> int list \<Rightarrow> int \<times> int \<Rightarrow> int \<times> int" where
  "totalsLoop status [] (workMins, idleMins) = (workMins, idleMins)"
| "totalsLoop status (t # seq) (workMins, idleMins) =
     (if binStatus status t = 1
      then totalsLoop status seq (workMins + binMinutes, idleMins)
      else totalsLoop status seq (workMins, idleMins + binMinutes))"

definition todayTotals :: "Store \<Rightarrow> int \<Rightarrow> int \<times> int" where
  "todayTotals s now =
     (let start = dayStart now; end' = now
      in totalsLoop (statusMap s start end') (windowSeq start end') (0, 0))"

section \<open>Focus statistics\<close>

fun focusLoop ::
  "(int \<rightharpoonup> int) \<Rightarrow> int list \<Rightarrow> int \<Rightarrow> int \<Rightarrow> int \<Rightarrow> int \<Rightarrow> int \<times> int" where
  "focusLoop status [] longestFocus currentFocus prevStatus contextSwitches =
     (longestFocus, contextSwitches)"
| "focusLoop status (t # seq) longestFocus currentFocus prevStatus contextSwitches =
     (let currentStatus = binStatus status t;
          currentFocus' = (if currentStatus = 1 then currentFocus + binMinutes else 0);
          longestFocus' =
            (if currentStatus = 1 \<and> currentFocus' > longestFocus then currentFocus'
             else longestFocus);
          contextSwitches' =
            (if currentStatus \<noteq> prevStatus then contextSwitches + 1 else contextSwitches)
      in focusLoop status seq longestFocus' currentFocus' currentStatus contextSwitches')"

definition calculateFocusStats :: "Store \<Rightarrow> int \<Rightarrow> int \<times> int" where
  "calculateFocusStats s now =
     (let start = dayStart now;
          seq = windowSeq start now;
          status = statusMap s start now
      in if length seq = 0 then (0, 0)
         else focusLoop status seq 0 0 (binStatus status (seq ! 0)) 0)"

section \<open>Go integers and formatting\<close>

text \<open>
  A Go \<open>int\<close> is a 64-bit two's-complement integer on the platforms the program runs on:
  the model keeps an \<open>int\<close> in the range and wraps the result of each multiplication,
  addition and division with \<open>wrap64\<close>. Go's \<open>/\<close> and \<open>%\<close> truncate toward zero:
  \<open>sdiv\<close> and \<open>smod\<close>. \<open>showInt\<close> is the decimal rendering of \<open>%d\<close>.
\<close>

definition wrap64 :: "int \<Rightarrow> int" where
  "wrap64 x = (x + 2 ^ 63) mod 2 ^ 64 - 2 ^ 63"

definition digitChar :: "nat \<Rightarrow> char" where
  "digitChar d = ''0123456789'' ! d"

function showNat :: "nat \<Rightarrow> string" where
  "showNat n = (if n < 10 then [digitChar n] else showNat (n div 10) @ [digitChar (n mod 10)])"
  by pat_completeness auto
termination
  by (relation "measure id") auto

declare showNat.simps [simp del]

definition showInt :: "int \<Rightarrow> string" where
  "showInt i = (if i < 0 then CHR ''-'' # showNat (nat (- i)) else showNat (nat i))"

definition humanDuration :: "int \<Rightarrow> string" where
  "humanDuration mins =
     (let h = wrap64 (mins sdiv 60); m = mins smod 60
      in if h > 0 \<and> m > 0 then showInt h @ '' hr '' @ showInt m @ '' mins''
         else if h > 0 then (if h = 1 then ''1 hr'' else showInt h @ '' hrs'')
         else if m = 1 then ''1 min''
         else showInt m @ '' mins'')"

definition formatPercentage :: "int \<Rightarrow> int \<Rightarrow> string" where
  "formatPercentage workMins goalMins =
     (if goalMins = 0 then ''0%''
      else (let pct = wrap64 (wrap64 (workMins * 100) sdiv goalMins)
            in showInt pct @ ''% of '' @ humanDuration goalMins))"

section \<open>Configuration input\<close>

text \<open>
  Strings are byte strings, UTF-8 where they hold text beyond ASCII. \<open>splitOn\<close> is
  \<open>strings.Split\<close> for a separator of one byte.
\<close>

datatype configError =
    InvalidConfigFormat
  | UnknownConfigKey string
  | InvalidTimeFormat
  | AtoiSyntax string
  | AtoiRange string
  | InvalidRangeFormat
  | InvalidDayNames
  | InvalidDayName string

fun splitOn :: "char \<Rightarrow> string \<Rightarrow> string list" where
  "splitOn c [] = [[]]"
| "splitOn c (x # xs) =
     (if x = c then [] # splitOn c xs
      else (case splitOn c xs of [] \<Rightarrow> [[x]] | p # ps \<Rightarrow> (x # p) # ps))"

text \<open>
  \<open>strings.ToLower\<close> maps every code point through \<open>unicode.ToLower\<close>. The program
  only looks the result up among the ASCII day names, so what matters is when the result
  is ASCII: a code point lower-cases to an ASCII letter when it is that letter, its ASCII
  capital, U+0130 (capital I with dot, bytes \<open>C4 B0\<close>, to \<open>i\<close>) or U+212A (the Kelvin
  sign, bytes \<open>E2 84 AA\<close>, to \<open>k\<close>). \<open>toLower\<close> rewrites exactly those and leaves every
  other byte: it agrees with \<open>strings.ToLower\<close> on every string that either sends to an
  ASCII string, and on the others both results keep a byte above \<open>7F\<close> and are no key of
  \<open>dayMap\<close>.
\<close>

definition toLowerChar :: "char \<Rightarrow> char" where
  "toLowerChar c =
     (case map_of (zip ''ABCDEFGHIJKLMNOPQRSTUVWXYZ'' ''abcdefghijklmnopqrstuvwxyz'') c of
        None \<Rightarrow> c
      | Some l \<Rightarrow> l)"

function toLower :: "string \<Rightarrow> string" where
  "toLower s =
     (case s of
        [] \<Rightarrow> []
      | c # cs \<Rightarrow>
          if take 2 s = [CHR 0xC4, CHR 0xB0] then CHR ''i'' # toLower (drop 2 s)
          else if take 3 s = [CHR 0xE2, CHR 0x84, CHR 0xAA] then CHR ''k'' # toLower (drop 3 s)
          else toLowerChar c # toLower cs)"
  by pat_completeness auto
termination
  by (relation "measure length") auto

declare toLower.simps [simp del]

text \<open>
  \<open>strings.TrimSpace\<close> removes leading and trailing white space as \<open>unicode.IsSpace\<close>
  defines it: tab, line feed, vertical tab, form feed, carriage return, space, U+0085,
  U+00A0, U+1680, U+2000 to U+200A, U+2028, U+2029, U+202F, U+205F and U+3000.
  \<open>spaceEncodings\<close> lists their UTF-8 encodings; \<open>stripLeading\<close> removes encodings of a
  list from the front for as long as one is there, and \<open>trimSpace\<close> does so at the front
  and, on the reversed string with the reversed encodings, at the back.
\<close>

definition spaceEncodings :: "string list" where
  "spaceEncodings =
     [[CHR 0x09], [CHR 0x0A], [CHR 0x0B], [CHR 0x0C], [CHR 0x0D], [CHR 0x20],
      [CHR 0xC2, CHR 0x85], [CHR 0xC2, CHR 0xA0], [CHR 0xE1, CHR 0x9A, CHR 0x80],
      [CHR 0xE2, CHR 0x80, CHR 0x80], [CHR 0xE2, CHR 0x80, CHR 0x81],
      [CHR 0xE2, CHR 0x80, CHR 0x82], [CHR 0xE2, CHR 0x80, CHR 0x83],
      [CHR 0xE2, CHR 0x80, CHR 0x84], [CHR 0xE2, CHR 0x80, CHR 0x85],
      [CHR 0xE2, CHR 0x80, CHR 0x86], [CHR 0xE2, CHR 0x80, CHR 0x87],
      [CHR 0xE2, CHR 0x80, CHR 0x88], [CHR 0xE2, CHR 0x80, CHR 0x89],
      [CHR 0xE2, CHR 0x80, CHR 0x8A], [CHR 0xE2, CHR 0x80, CHR 0xA8],
      [CHR 0xE2, CHR 0x80, CHR 0xA9], [CHR 0xE2, CHR 0x80, CHR 0xAF],
      [CHR 0xE2, CHR 0x81, CHR 0x9F], [CHR 0xE3, CHR 0x80, CHR 0x80]]"

function stripLeading :: "string list \<Rightarrow> string \<Rightarrow> string" where
  "stripLeading encs s =
     (case find (\<lambda>w. w \<noteq> [] \<and> take (length w) s = w) encs of
        None \<Rightarrow> s
      | Some w \<Rightarrow> stripLeading encs (drop (length w) s))"
  by pat_completeness auto
termination
proof (relation "measure (\<lambda>(encs, s). length s)")
  show "wf (measure (\<lambda>(encs, s). length s))" by simp
next
  fix encs :: "string list" and s w :: string
  assume "find (\<lambda>w. w \<noteq> [] \<and> take (length w) s = w) encs = Some w"
  then have w: "w \<noteq> []" "take (length w) s = w"
    by (auto simp: find_Some_iff)
  have "length w = min (length s) (length w)"
    using w(2) by (metis length_take)
  then have "length w \<le> length s" by arith
  moreover have "0 < length w" using w(1) by simp
  ultimately have "length s - length w < length s" by arith
  then show "((encs, drop (length w) s), (encs, s)) \<in> measure (\<lambda>(encs, s). length s)"
    by simp
qed

declare stripLeading.simps [simp del]

definition trimSpace :: "string \<Rightarrow> string" where
  "trimSpace s =
     rev (stripLeading (map rev spaceEncodings) (rev (stripLeading spaceEncodings s)))"

definition isDigit :: "char \<Rightarrow> bool" where
  "isDigit c = (c \<in> set ''0123456789'')"

definition digitVal :: "char \<Rightarrow> int" where
  "digitVal c = int (length (takeWhile (\<lambda>d. d \<noteq> c) ''0123456789''))"

definition digitsVal :: "string \<Rightarrow> int" where
  "digitsVal ds = foldl (\<lambda>acc c. acc * 10 + digitVal c) 0 ds"

text \<open>
  \<open>strconv.Atoi\<close>: an optional sign, then at least one decimal digit and nothing else; a
  value outside the 64-bit range is an error.
\<close>

definition Atoi :: "string \<Rightarrow> configError + int" where
  "Atoi s =
     (let (neg, ds) =
            (case s of
               [] \<Rightarrow> (False, s)
             | c # r \<Rightarrow>
                 if c = CHR ''-'' then (True, r)
                 else if c = CHR ''+'' then (False, r)
                 else (False, s))
      in if ds = [] \<or> \<not> list_all isDigit ds then Inl (AtoiSyntax s)
         else (let v = (if neg then - digitsVal ds else digitsVal ds)
               in if v < - (2 ^ 63) \<or> 2 ^ 63 - 1 < v then Inl (AtoiRange s) else Inr v))"

definition parseTimeToMinutes :: "string \<Rightarrow> configError + int" where
  "parseTimeToMinutes timeStr =
     (let parts = splitOn CHR '':'' timeStr
      in if length parts \<noteq> 2 then Inl InvalidTimeFormat
         else (case Atoi (parts ! 0) of
                 Inl err \<Rightarrow> Inl err
               | Inr hours \<Rightarrow>
                   (case Atoi (parts ! 1) of
                      Inl err \<Rightarrow> Inl err
                    | Inr mins \<Rightarrow> Inr (wrap64 (wrap64 (hours * 60) + mins)))))"

definition dayMap :: "string \<rightharpoonup> int" where
  "dayMap =
     map_of [(''mon'', 1), (''tue'', 2), (''wed'', 3), (''thu'', 4), (''fri'', 5),
             (''sat'', 6), (''sun'', 7)]"

fun dayList :: "string list \<Rightarrow> int list \<Rightarrow> configError + int list" where
  "dayList [] days = Inr days"
| "dayList (part # parts) days =
     (case dayMap (toLower (trimSpace part)) of
        None \<Rightarrow> Inl (InvalidDayName part)
      | Some day \<Rightarrow> dayList parts (days @ [day]))"

definition parseWorkDays :: "string \<Rightarrow> configError + int list" where
  "parseWorkDays workDaysStr =
     (if CHR ''-'' \<in> set workDaysStr
      then (let parts = splitOn CHR ''-'' workDaysStr
            in if length parts \<noteq> 2 then Inl InvalidRangeFormat
               else (case (dayMap (toLower (parts ! 0)), dayMap (toLower (parts ! 1))) of
                       (Some start, Some end') \<Rightarrow> Inr [start..end']
                     | _ \<Rightarrow> Inl InvalidDayNames))
      else dayList (splitOn CHR '','' workDaysStr) [])"

text \<open>
  The \<open>--config\<close> branch of \<open>main\<close>. \<open>doc\<close> is the persisted document, already decoded;
  \<open>loadStore\<close> fills in the defaults of a zero goal and of an empty workday list. The
  result is the outcome and the persisted document afterwards: every error exits before
  the store is saved, and the save is taken to succeed. The branch is entered with a
  non-empty flag only.
\<close>

definition splitN2 :: "char \<Rightarrow> string \<Rightarrow> string list" where
  "splitN2 c s =
     (if c \<in> set s then [takeWhile (\<lambda>x. x \<noteq> c) s, tl (dropWhile (\<lambda>x. x \<noteq> c) s)] else [s])"

definition loadStore :: "Store \<Rightarrow> Store" where
  "loadStore doc =
     (let s1 = (if DailyGoalMinutes (Config doc) = 0
                then doc\<lparr>Config := (Config doc)\<lparr>DailyGoalMinutes := 480\<rparr>\<rparr> else doc)
      in if length (WorkDays (Config s1)) = 0
         then s1\<lparr>Config := (Config s1)\<lparr>WorkDays := [1, 2, 3, 4, 5]\<rparr>\<rparr> else s1)"

definition configMain :: "string \<Rightarrow> Store \<Rightarrow> (configError + unit) \<times> Store" where
  "configMain configFlag doc =
     (let parts = splitN2 CHR ''='' configFlag
      in if length parts \<noteq> 2 then (Inl InvalidConfigFormat, doc)
         else (let store = loadStore doc
               in if parts ! 0 = ''dailygoal'' then
                    (case parseTimeToMinutes (parts ! 1) of
                       Inl err \<Rightarrow> (Inl err, doc)
                     | Inr mins \<Rightarrow>
                         (Inr (), store\<lparr>Config := (Config store)\<lparr>DailyGoalMinutes := mins\<rparr>\<rparr>))
                  else if parts ! 0 = ''workdays'' then
                    (case parseWorkDays (parts ! 1) of
                       Inl err \<Rightarrow> (Inl err, doc)
                     | Inr days \<Rightarrow>
                         (Inr (), store\<lparr>Config := (Config store)\<lparr>WorkDays := days\<rparr>\<rparr>))
                  else (Inl (UnknownConfigKey (parts ! 0)), doc)))"

section \<open>Reference notions: runs of raw samples\<close>

text \<open>
  Two sampled instants are linked when the second is exactly one bucket width after the
  first and both carry the same status. A run is a non-empty list of instants in which
  each is linked to the next; a list of runs is maximal when no run is linked to the one
  after it. \<open>groupRuns\<close> cuts a list of instants into its maximal runs, and
  \<open>rangeOfRun\<close> is the Range that stands for a run.
\<close>

definition linked :: "(int \<rightharpoonup> int) \<Rightarrow> int \<Rightarrow> int \<Rightarrow> bool" where
  "linked bins a b = (b - a = binSeconds \<and> binStatus bins b = binStatus bins a)"

fun isRun :: "(int \<rightharpoonup> int) \<Rightarrow> int list \<Rightarrow> bool" where
  "isRun bins [] = False"
| "isRun bins [a] = True"
| "isRun bins (a # b # run) = (linked bins a b \<and> isRun bins (b # run))"

fun maximalRuns :: "(int \<rightharpoonup> int) \<Rightarrow> int list list \<Rightarrow> bool" where
  "maximalRuns bins [] = True"
| "maximalRuns bins [r] = True"
| "maximalRuns bins (r1 # r2 # runs) =
     (\<not> linked bins (last r1) (hd r2) \<and> maximalRuns bins (r2 # runs))"

fun groupRuns :: "(int \<rightharpoonup> int) \<Rightarrow> int list \<Rightarrow> int list list" where
  "groupRuns bins [] = []"
| "groupRuns bins (a # rest) =
     (case groupRuns bins rest of
        [] \<Rightarrow> [[a]]
      | run # runs \<Rightarrow>
          if linked bins a (hd run) then (a # run) # runs else [a] # run # runs)"

definition rangeOfRun :: "(int \<rightharpoonup> int) \<Rightarrow> int list \<Rightarrow> Range" where
  "rangeOfRun bins run =
     \<lparr>Start = hd run, End = last run + binSeconds, Status = binStatus bins (hd run),
      Tag = [], Note = []\<rparr>"

section \<open>Reference notions: what a Range writes into a window\<close>

text \<open>
  \<open>onGrid a t\<close> says that \<open>t\<close> is \<open>a\<close> plus a whole number of bucket widths.
  \<open>loopWrites\<close> says which instants the decompression loop started at \<open>cur\<close> writes,
  \<open>rangeWrites\<close> which instants a Range writes in a window, and \<open>rangeStatus\<close> is the
  status the Ranges alone give an instant: that of the last Range of the list writing it.
\<close>

definition onGrid :: "int \<Rightarrow> int \<Rightarrow> bool" where
  "onGrid a t = (a \<le> t \<and> (t - a) mod 300 = 0)"

definition loopWrites :: "int \<Rightarrow> int \<Rightarrow> int \<Rightarrow> int \<Rightarrow> int \<Rightarrow> bool" where
  "loopWrites cur rEnd wstart wend t =
     (cur \<le> t \<and> (t - cur) mod 300 = 0 \<and> t < rEnd \<and> t < wend \<and> wstart \<le> t)"

definition rangeWrites :: "Range \<Rightarrow> int \<Rightarrow> int \<Rightarrow> int \<Rightarrow> bool" where
  "rangeWrites r wstart wend t =
     (wstart \<le> End r \<and> Start r < wend \<and>
      loopWrites (floorToBin (Start r)) (End r) wstart wend t)"

fun rangeStatus :: "Range list \<Rightarrow> int \<Rightarrow> int \<Rightarrow> int \<Rightarrow> int option" where
  "rangeStatus [] wstart wend t = None"
| "rangeStatus (r # rs) wstart wend t =
     (case rangeStatus rs wstart wend t of
        Some w \<Rightarrow> Some w
      | None \<Rightarrow> if rangeWrites r wstart wend t then Some (Status r) else None)"

text \<open>
  The overlay order the specification gives the window resolver: the Ranges first, the raw
  samples last, so that a raw sample wins over a Range for the same bucket.
  \<open>fetchBins\<close> overlays them the other way round.
\<close>

definition fetchBinsRawLast :: "Store \<Rightarrow> int \<Rightarrow> int \<Rightarrow> (int \<rightharpoonup> int)" where
  "fetchBinsRawLast s wstart wend =
     overlayRanges (Ranges s) wstart wend Map.empty ++ rawInWindow (Bins s) wstart wend"

definition binWellFormed :: "Store \<Rightarrow> int \<Rightarrow> bool" where
  "binWellFormed s k = (Bins s k = None \<or> Bins s k = Some 0 \<or> Bins s k = Some 1)"

section \<open>Reference notions: focus statistics\<close>

text \<open>
  \<open>countSwitches\<close> counts the adjacent pairs of a status sequence that differ.
  \<open>runsMax c sts\<close> is the length of the longest block of consecutive working entries of
  \<open>sts\<close>, a block at the front counting \<open>c\<close> more.
\<close>

definition countSwitches :: "int list \<Rightarrow> int" where
  "countSwitches sts = int (length (filter (\<lambda>(a, b). a \<noteq> b) (zip sts (tl sts))))"

fun runsMax :: "nat \<Rightarrow> int list \<Rightarrow> nat" where
  "runsMax c [] = c"
| "runsMax c (x # sts) = (if x = 1 then runsMax (Suc c) sts else max c (runsMax 0 sts))"

text \<open>The statuses of today's resolved sequence, as \<open>calculateFocusStats\<close> scans them.\<close>

definition dayStatuses :: "Store \<Rightarrow> int \<Rightarrow> int list" where
  "dayStatuses s now = map snd (resolvedSeq s (dayStart now) now)"

section \<open>Reference notions: well-formed configuration input\<close>

text \<open>
  An integer part is an optional sign followed by at least one decimal digit. The tokens
  of a workday string are its pieces between commas and dashes; a token names a day when,
  trimmed and lower-cased, it is one of the seven day names.
\<close>

definition isInteger :: "string \<Rightarrow> bool" where
  "isInteger s =
     (let ds = (case s of [] \<Rightarrow> s | c # r \<Rightarrow> if c = CHR ''-'' \<or> c = CHR ''+'' then r else s)
      in ds \<noteq> [] \<and> list_all isDigit ds)"

fun tokens :: "string \<Rightarrow> string list" where
  "tokens [] = [[]]"
| "tokens (x # xs) =
     (if x = CHR '','' \<or> x = CHR ''-'' then [] # tokens xs
      else (case tokens xs of [] \<Rightarrow> [[x]] | p # ps \<Rightarrow> (x # p) # ps))"

definition namesDay :: "string \<Rightarrow> bool" where
  "namesDay tok =
     (toLower (trimSpace tok) \<in> set [''mon'', ''tue'', ''wed'', ''thu'', ''fri'', ''sat'', ''sun''])"

text \<open>The bytes of the strings that lower-case to a day name.\<close>

definition dayBytes :: string where
  "dayBytes = ''montuewdhfrisaMONTUEWDHFRISA'' @ [CHR 0xC4, CHR 0xB0]"


section \<open>Concrete stores\<close>

definition defaultConfig :: Config where
  "defaultConfig = \<lparr>DailyGoalMinutes = 480, WorkDays = [1, 2, 3, 4, 5]\<rparr>"

definition emptyStore :: Store where
  "emptyStore = \<lparr>Bins = Map.empty, Ranges = [], Config = defaultConfig, Tags = []\<rparr>"

text \<open>One working raw sample at instant 600.\<close>

definition workingStore :: Store where
  "workingStore = \<lparr>Bins = [600 \<mapsto> 1], Ranges = [], Config = defaultConfig, Tags = []\<rparr>"

text \<open>
  \<open>gridBins n v\<close> holds one raw sample of status \<open>v\<close> for each of the \<open>n\<close> buckets
  starting at instants \<open>0, 300, \<dots>\<close>; \<open>gridOrder n\<close> lists its keys.
\<close>

definition gridBins :: "nat \<Rightarrow> int \<Rightarrow> (int \<rightharpoonup> int)" where
  "gridBins n v = (\<lambda>k. if 0 \<le> k \<and> k < 300 * int n \<and> k mod 300 = 0 then Some v else None)"

definition gridOrder :: "nat \<Rightarrow> int list" where
  "gridOrder n = map (\<lambda>i. 300 * int i) (rev [0..<n])"

definition gridStore :: "nat \<Rightarrow> Store" where
  "gridStore n = \<lparr>Bins = gridBins n 1, Ranges = [], Config = defaultConfig, Tags = []\<rparr>"

text \<open>
  Two passes of the sampling loop within the bucket at instant 30000, from a store of 100
  working raw samples for the buckets at 0 to 29700. The first pass sees no activity in the
  bucket: its idle sample is the 101st, and the pass compacts the store, that bucket
  included. The second pass sees activity and upserts a working sample for the bucket.
\<close>

definition afterIdleTick :: Store where
  "afterIdleTick = sampleTick (30000 # gridOrder 100) (gridStore 100) 30000 False"

definition afterWorkingTick :: Store where
  "afterWorkingTick = sampleTick [30000] afterIdleTick 30000 True"

text \<open>
  One hundred working raw samples for the buckets at 0 to 29700 and an idle Range over the
  bucket at 0, as an earlier compaction of that bucket, sampled idle at the time, leaves it.
\<close>

definition staleStore :: Store where
  "staleStore =
     (gridStore 100)\<lparr>Ranges := [\<lparr>Start = 0, End = 300, Status = 0, Tag = [], Note = []\<rparr>]\<rparr>"

text \<open>Working raw samples for the buckets at instants 600 and 900, nothing else.\<close>

definition focusStore :: Store where
  "focusStore =
     \<lparr>Bins = [600 \<mapsto> 1, 900 \<mapsto> 1], Ranges = [], Config = defaultConfig, Tags = []\<rparr>"

text \<open>A document with a goal of 7 hours 30 minutes and the workdays Wednesday to Friday.\<close>

definition customStore :: Store where
  "customStore =
     \<lparr>Bins = Map.empty, Ranges = [],
      Config = \<lparr>DailyGoalMinutes = 450, WorkDays = [3, 4, 5]\<rparr>, Tags = []\<rparr>"


section \<open>Properties of the bucket clock and the window resolver\<close>

lemma floorToBin_eq: "floorToBin t = t - t mod 300"
proof -
  define q where "q = t div 60"
  have tm: "truncateMinute t = 60 * q"
    by (simp add: truncateMinute_def q_def minus_mod_eq_mult_div)
  have mo: "minuteOf (60 * q) = q mod 60"
    by (simp add: minuteOf_def)
  have "(60 * q) mod (60 * 60) = 60 * ((60 * q) div 60 mod 60) + (60 * q) mod 60"
    by (rule zmod_zmult2_eq) simp
  then have hs: "hourStart (60 * q) = 60 * q - 60 * (q mod 60)"
    by (simp add: hourStart_def)
  have "(q mod 60) mod 5 = q mod 5"
    by (rule mod_mod_cancel) simp
  then have m: "(q mod 60 div 5) * 5 = q mod 60 - q mod 5"
    by (metis minus_mod_eq_div_mult)
  have "t mod (60 * 5) = 60 * (t div 60 mod 5) + t mod 60"
    by (rule zmod_zmult2_eq) simp
  then have rhs: "t - t mod 300 = 60 * q - 60 * (q mod 5)"
    by (simp add: q_def minus_mod_eq_mult_div algebra_simps)
  show ?thesis
    unfolding floorToBin_def Let_def tm mo hs binMinutes_def m rhs
    by (simp add: algebra_simps)
qed

lemma grid_unfold:
  "(a \<le> t \<and> (t - a) mod 300 = 0) = (t = a \<or> (a + 300 \<le> t \<and> (t - (a + 300)) mod 300 = 0))"
  for a t :: int
proof -
  have "t - (a + 300) = t - a - 300" by simp
  then have m: "(t - (a + 300)) mod 300 = (t - a) mod 300"
    by (simp only: minus_mod_self2)
  have ge: "a + 300 \<le> t" if "a \<le> t" "(t - a) mod 300 = 0" "t \<noteq> a"
  proof -
    have "300 dvd t - a" using that(2) by (simp add: mod_eq_0_iff_dvd)
    moreover have "0 < t - a" using that by simp
    ultimately have "300 \<le> t - a" by (rule zdvd_imp_le)
    then show ?thesis by simp
  qed
  show ?thesis
  proof (cases "t = a")
    case True
    then show ?thesis by simp
  next
    case False
    then show ?thesis
      unfolding m using ge by (auto simp: mod_eq_0_iff_dvd)
  qed
qed

lemma grid_single: "a \<le> t \<Longrightarrow> t < a + 300 \<Longrightarrow> (t - a) mod 300 = 0 \<Longrightarrow> t = a" for a t :: int
  using grid_unfold[of a t] by linarith

lemma onGrid_unfold: "onGrid a t = (t = a \<or> onGrid (a + 300) t)"
  unfolding onGrid_def using grid_unfold[of a t] by blast

lemma onGrid_single: "onGrid a t \<Longrightarrow> t < a + 300 \<Longrightarrow> t = a"
  unfolding onGrid_def by (rule grid_single) blast+

lemma onGrid_le: "onGrid a t \<Longrightarrow> a \<le> t"
  by (simp add: onGrid_def)

lemma onGrid_refl: "onGrid a a"
  by (simp add: onGrid_def)

lemma loopWrites_onGrid:
  "loopWrites cur rEnd wstart wend t = (onGrid cur t \<and> t < rEnd \<and> t < wend \<and> wstart \<le> t)"
  unfolding loopWrites_def onGrid_def by blast

lemma loopWrites_step:
  "cur < rEnd \<Longrightarrow> cur < wend \<Longrightarrow>
   loopWrites cur rEnd wstart wend t =
     ((t = cur \<and> wstart \<le> cur) \<or> loopWrites (cur + 300) rEnd wstart wend t)"
proof -
  assume a: "cur < rEnd" "cur < wend"
  have "t - (cur + 300) = t - cur - 300" by simp
  then have m: "(t - (cur + 300)) mod 300 = (t - cur) mod 300"
    by (simp only: minus_mod_self2)
  have ge: "cur + 300 \<le> t" if "cur \<le> t" "(t - cur) mod 300 = 0" "t \<noteq> cur"
  proof -
    have "300 dvd t - cur" using that(2) by (simp add: mod_eq_0_iff_dvd)
    moreover have "0 < t - cur" using that by simp
    ultimately have "300 \<le> t - cur" by (rule zdvd_imp_le)
    then show ?thesis by simp
  qed
  show ?thesis
  proof (cases "t = cur")
    case True
    then show ?thesis using a by (simp add: loopWrites_def)
  next
    case False
    then show ?thesis
      unfolding loopWrites_def m using ge by (auto simp: mod_eq_0_iff_dvd)
  qed
qed

lemma loopWrites_stop:
  "\<not> (cur < rEnd \<and> cur < wend) \<Longrightarrow> \<not> loopWrites cur rEnd wstart wend t"
  unfolding loopWrites_def by auto

lemma rangeLoop_apply:
  "rangeLoop cur rEnd wstart wend st res t =
     (if loopWrites cur rEnd wstart wend t then Some st else res t)"
proof (induction cur rEnd wstart wend st res rule: rangeLoop.induct)
  case (1 cur rEnd wstart wend st res)
  show ?case
  proof (cases "cur < rEnd \<and> cur < wend")
    case True
    then have "rangeLoop cur rEnd wstart wend st res t =
       rangeLoop (cur + binSeconds) rEnd wstart wend st
             (if \<not> cur < wstart then res(cur \<mapsto> st) else res) t"
      by (subst rangeLoop.simps) simp
    also have "\<dots> = (if loopWrites (cur + 300) rEnd wstart wend t then Some st
                     else (if \<not> cur < wstart then res(cur \<mapsto> st) else res) t)"
      using 1[OF True] by (simp add: binSeconds_def binMinutes_def)
    finally show ?thesis
      using True by (auto simp: loopWrites_step[of cur rEnd wend wstart t])
  next
    case False
    then show ?thesis
      using loopWrites_stop[OF False, of wstart t] by (subst rangeLoop.simps) auto
  qed
qed

lemma overlayRanges_apply:
  "overlayRanges rs wstart wend res t =
     (case rangeStatus rs wstart wend t of Some w \<Rightarrow> Some w | None \<Rightarrow> res t)"
proof (induction rs arbitrary: res)
  case Nil
  then show ?case by simp
next
  case (Cons r rs)
  show ?case
    by (simp add: Cons.IH rangeLoop_apply rangeWrites_def split: option.splits)
qed

lemma rangeStatus_Some:
  "rangeStatus rs wstart wend t = Some w \<Longrightarrow>
     \<exists>r \<in> set rs. Status r = w \<and> rangeWrites r wstart wend t"
  by (induction rs) (auto split: option.splits if_splits)

lemma fetchBins_apply:
  "fetchBins s wstart wend t =
     (case rangeStatus (Ranges s) wstart wend t of
        Some w \<Rightarrow> Some w
      | None \<Rightarrow> rawInWindow (Bins s) wstart wend t)"
  by (simp add: fetchBins_def overlayRanges_apply)

lemma upsert_k: "Bins s k = Some 1 \<Longrightarrow> Bins (upsertBin s k' w) k = Some 1"
  by (auto simp: upsertBin_def binStatus_def Let_def)

lemma upsertAll_keeps: "Bins s k = Some 1 \<Longrightarrow> Bins (upsertAll s obs) k = Some 1"
  by (induction s obs rule: upsertAll.induct) (auto simp: upsert_k)

lemma rangeStatus_None:
  "rangeStatus rs wstart wend t = None \<longleftrightarrow> (\<forall>r \<in> set rs. \<not> rangeWrites r wstart wend t)"
  by (induction rs) (auto split: option.splits)

lemma rangeStatus_last:
  "rangeStatus rs wstart wend t = Some w \<Longrightarrow>
     \<exists>pre r post. rs = pre @ r # post \<and> Status r = w \<and> rangeWrites r wstart wend t \<and>
        (\<forall>r' \<in> set post. \<not> rangeWrites r' wstart wend t)"
proof (induction rs)
  case Nil
  then show ?case by simp
next
  case (Cons r rs)
  show ?case
  proof (cases "rangeStatus rs wstart wend t")
    case None
    then have "Status r = w" "rangeWrites r wstart wend t"
      using Cons.prems by (auto split: if_splits)
    moreover have "\<forall>r' \<in> set rs. \<not> rangeWrites r' wstart wend t"
      using None by (simp add: rangeStatus_None)
    ultimately have "r # rs = [] @ r # rs \<and> Status r = w \<and> rangeWrites r wstart wend t \<and>
        (\<forall>r' \<in> set rs. \<not> rangeWrites r' wstart wend t)" by simp
    then show ?thesis by blast
  next
    case (Some u)
    then have "rangeStatus rs wstart wend t = Some w" using Cons.prems by simp
    then obtain pre r' post where p: "rs = pre @ r' # post" "Status r' = w"
      "rangeWrites r' wstart wend t" "\<forall>x \<in> set post. \<not> rangeWrites x wstart wend t"
      using Cons.IH by blast
    then have "r # rs = (r # pre) @ r' # post" by simp
    then show ?thesis using p by blast
  qed
qed

section \<open>The exchange sort of the compactor sorts\<close>

lemma sortInner_length: "length (sortInner i j tms) = length tms"
  by (induction i j tms rule: sortInner.induct) (subst sortInner.simps, simp)

lemma sortInner_mset: "i < j \<Longrightarrow> mset (sortInner i j tms) = mset tms"
proof (induction i j tms rule: sortInner.induct)
  case (1 i j tms)
  show ?case
  proof (cases "j < length tms")
    case True
    have "mset (tms[i := tms ! j, j := tms ! i]) = mset tms"
      using True 1(2) by (simp add: mset_swap)
    then show ?thesis
      using True 1 by (subst sortInner.simps) simp
  next
    case False
    then show ?thesis by (subst sortInner.simps) simp
  qed
qed

lemma sortInner_take: "i < j \<Longrightarrow> take i (sortInner i j tms) = take i tms"
proof (induction i j tms rule: sortInner.induct)
  case (1 i j tms)
  show ?case
  proof (cases "j < length tms")
    case True
    then show ?thesis
      using 1 by (subst sortInner.simps) simp
  next
    case False
    then show ?thesis by (subst sortInner.simps) simp
  qed
qed

lemma sortInner_min:
  "i < j \<Longrightarrow> \<forall>k. i < k \<and> k < j \<and> k < length tms \<longrightarrow> tms ! i \<le> tms ! k \<Longrightarrow>
   i < k \<Longrightarrow> k < length tms \<Longrightarrow> sortInner i j tms ! i \<le> sortInner i j tms ! k"
proof (induction i j tms rule: sortInner.induct)
  case (1 i j tms)
  show ?case
  proof (cases "j < length tms")
    case True
    let ?t = "if tms ! i > tms ! j then tms[i := tms ! j, j := tms ! i] else tms"
    have inv: "\<forall>k. i < k \<and> k < j + 1 \<and> k < length ?t \<longrightarrow> ?t ! i \<le> ?t ! k"
      using 1(2,3) True by (auto simp: nth_list_update less_Suc_eq)
    have "sortInner i (j + 1) ?t ! i \<le> sortInner i (j + 1) ?t ! k"
      using 1(1)[OF True _ inv] 1(2,4,5) by simp
    then show ?thesis
      using True by (subst (1 2) sortInner.simps) simp
  next
    case False
    then show ?thesis
      using 1 by (subst (1 2) sortInner.simps) simp
  qed
qed

lemma sortInner_drop_mset:
  assumes "i < j"
  shows "mset (drop i (sortInner i j tms)) = mset (drop i tms)"
proof -
  have "mset (take i (sortInner i j tms)) + mset (drop i (sortInner i j tms)) =
        mset (take i tms) + mset (drop i tms)"
    using sortInner_mset[OF assms, of tms]
    by (metis append_take_drop_id mset_append)
  then show ?thesis
    using sortInner_take[OF assms, of tms] by simp
qed

lemma sortOuter_mset: "mset (sortOuter i tms) = mset tms"
  by (induction i tms rule: sortOuter.induct)
     (subst sortOuter.simps, simp add: sortInner_mset)

lemma sortOuter_sorted:
  "sorted (take i tms) \<Longrightarrow> \<forall>x \<in> set (take i tms). \<forall>y \<in> set (drop i tms). x \<le> y \<Longrightarrow>
   sorted (sortOuter i tms)"
proof (induction i tms rule: sortOuter.induct)
  case (1 i tms)
  show ?case
  proof (cases "i + 1 < length tms")
    case True
    let ?t = "sortInner i (i + 1) tms"
    have len: "length ?t = length tms" by (rule sortInner_length)
    have tk: "take i ?t = take i tms" by (simp add: sortInner_take)
    have dr: "set (drop i ?t) = set (drop i tms)"
      using sortInner_drop_mset[of i "i + 1" tms] by (metis less_add_one set_mset_mset)
    have ti: "?t ! i \<in> set (drop i ?t)"
      using True len by (metis Cons_nth_drop_Suc add_lessD1 list.set_intros(1))
    have tk1: "take (i + 1) ?t = take i tms @ [?t ! i]"
      using True len tk by (simp add: take_Suc_conv_app_nth)
    have dr1: "set (drop (i + 1) ?t) \<subseteq> set (drop i ?t)"
      by (metis set_drop_subset_set_drop le_add1)
    have s1: "sorted (take (i + 1) ?t)"
      unfolding tk1 using 1(2,3) ti dr by (auto simp: sorted_append)
    have min: "?t ! i \<le> y" if "y \<in> set (drop (i + 1) ?t)" for y
    proof -
      from that obtain n where n: "n < length (drop (i + 1) ?t)" "y = drop (i + 1) ?t ! n"
        by (metis in_set_conv_nth)
      then have "y = ?t ! (i + 1 + n)" "i + 1 + n < length tms"
        using len by auto
      then show ?thesis
        using sortInner_min[of i "i + 1" tms "i + 1 + n"] by simp
    qed
    have s2: "\<forall>x \<in> set (take (i + 1) ?t). \<forall>y \<in> set (drop (i + 1) ?t). x \<le> y"
      unfolding tk1 using 1(3) dr dr1 min by auto
    show ?thesis
      using 1(1)[OF True s1 s2] True by (subst sortOuter.simps) simp
  next
    case False
    have "sorted (take i tms @ drop i tms)"
      unfolding sorted_append
    proof (intro conjI)
      show "sorted (take i tms)" by (rule 1(2))
      have "length (drop i tms) \<le> 1" using False by simp
      then show "sorted (drop i tms)"
        by (cases "drop i tms") (auto simp: Suc_le_eq)
      show "\<forall>x\<in>set (take i tms). \<forall>y\<in>set (drop i tms). x \<le> y" by (rule 1(3))
    qed
    then show ?thesis
      using False by (subst sortOuter.simps) simp
  qed
qed

lemma sortOuter_sort: "sortOuter 0 tms = sort tms"
  using properties_for_sort[of "sortOuter 0 tms" tms] sortOuter_mset[of 0 tms]
    sortOuter_sorted[of 0 tms] by simp

lemma sortOuter_order:
  assumes "iterationOrder bins order"
  shows "sortOuter 0 order = sorted_list_of_set (dom bins)"
proof -
  have "sorted_list_of_set (set order) = sort (remdups order)"
    by (rule sorted_list_of_set_sort_remdups)
  moreover have "remdups order = order"
    using assms by (simp add: iterationOrder_def distinct_remdups_id)
  ultimately show ?thesis
    using assms by (simp add: sortOuter_sort iterationOrder_def)
qed

section \<open>The scan of the compactor emits the maximal runs\<close>

lemma groupRuns_Cons_hd: "\<exists>run runs. groupRuns bins (a # rest) = run # runs \<and> hd run = a \<and> run \<noteq> []"
  by (cases "groupRuns bins rest") auto

lemma groupRuns_Cons_unlinked:
  "rest \<noteq> [] \<Longrightarrow> \<not> linked bins a (hd rest) \<Longrightarrow>
   groupRuns bins (a # rest) = [a] # groupRuns bins rest"
proof -
  assume r: "rest \<noteq> []" and nl: "\<not> linked bins a (hd rest)"
  then obtain b rest' where rest: "rest = b # rest'" by (cases rest) auto
  obtain run runs where g: "groupRuns bins (b # rest') = run # runs" "hd run = b"
    using groupRuns_Cons_hd by blast
  show ?thesis using nl g unfolding rest by simp
qed

lemma groupRuns_Cons_linked:
  "groupRuns bins rest = run # runs \<Longrightarrow> linked bins a (hd rest) \<Longrightarrow>
   groupRuns bins (a # rest) = (a # run) # runs"
proof -
  assume g: "groupRuns bins rest = run # runs" and l: "linked bins a (hd rest)"
  then obtain b rest' where rest: "rest = b # rest'" by (cases rest) auto
  have "hd run = b" using groupRuns_Cons_hd[of bins b rest'] g unfolding rest by auto
  then show ?thesis using l g unfolding rest by simp
qed

lemma runEnd_group:
  "j < length tms \<Longrightarrow> status = binStatus bins (tms ! j) \<Longrightarrow>
   j \<le> runEnd bins tms status j \<and> runEnd bins tms status j < length tms \<and>
   groupRuns bins (drop j tms) =
     take (runEnd bins tms status j + 1 - j) (drop j tms)
       # groupRuns bins (drop (runEnd bins tms status j + 1) tms)"
proof (induction bins tms status j rule: runEnd.induct)
  case (1 bins tms status j)
  have dj: "drop j tms = tms ! j # drop (j + 1) tms"
    using 1(2) by (simp add: Cons_nth_drop_Suc)
  show ?case
  proof (cases "j + 1 < length tms")
    case True
    have hd1: "hd (drop (j + 1) tms) = tms ! (j + 1)"
      using True by (simp add: hd_drop_conv_nth)
    have ne: "drop (j + 1) tms \<noteq> []" using True by simp
    show ?thesis
    proof (cases "binStatus bins (tms ! (j + 1)) = status \<and> tms ! (j + 1) - tms ! j = binSeconds")
      case link: True
      let ?e = "runEnd bins tms status (j + 1)"
      have re: "runEnd bins tms status j = ?e"
        using True link by (subst runEnd.simps) (simp add: Let_def)
      have ih: "j + 1 \<le> ?e \<and> ?e < length tms \<and>
          groupRuns bins (drop (j + 1) tms) =
            take (?e + 1 - (j + 1)) (drop (j + 1) tms) # groupRuns bins (drop (?e + 1) tms)"
        using 1(1)[OF True refl refl _ True] link by simp
      have lk: "linked bins (tms ! j) (hd (drop (j + 1) tms))"
        using link 1(3) True by (simp add: linked_def hd_drop_conv_nth)
      have "groupRuns bins (drop j tms) =
          (tms ! j # take (?e + 1 - (j + 1)) (drop (j + 1) tms)) # groupRuns bins (drop (?e + 1) tms)"
        unfolding dj using groupRuns_Cons_linked[OF _ lk] ih by simp
      moreover have "tms ! j # take (?e + 1 - (j + 1)) (drop (j + 1) tms) = take (?e + 1 - j) (drop j tms)"
        using ih by (subst dj) (simp add: Suc_diff_le)
      ultimately show ?thesis using ih re by simp
    next
      case nolink: False
      have re: "runEnd bins tms status j = j"
        using True nolink by (subst runEnd.simps) (auto simp: Let_def)
      have nl: "\<not> linked bins (tms ! j) (hd (drop (j + 1) tms))"
        using nolink 1(3) True by (auto simp: linked_def hd_drop_conv_nth)
      show ?thesis
        unfolding re using 1(2) groupRuns_Cons_unlinked[OF ne nl] by (subst dj) (simp add: dj)
    qed
  next
    case False
    have re: "runEnd bins tms status j = j"
      using False by (subst runEnd.simps) simp
    have "drop (j + 1) tms = []" using False by simp
    then show ?thesis unfolding re using 1(2) by (subst dj) (simp add: dj)
  qed
qed

lemma emitRuns_group:
  "emitRuns bins tms i ranges = ranges @ map (rangeOfRun bins) (groupRuns bins (drop i tms))"
proof (induction bins tms i ranges rule: emitRuns.induct)
  case (1 bins tms i ranges)
  show ?case
  proof (cases "i < length tms")
    case True
    let ?status = "binStatus bins (tms ! i)"
    let ?j = "runEnd bins tms ?status i"
    let ?r = "\<lparr>Start = tms ! i, End = tms ! ?j + binSeconds, Status = ?status, Tag = [], Note = []\<rparr>"
    have g: "i \<le> ?j" "?j < length tms"
      "groupRuns bins (drop i tms) = take (?j + 1 - i) (drop i tms) # groupRuns bins (drop (?j + 1) tms)"
      using runEnd_group[OF True refl, of bins] by auto
    have e: "emitRuns bins tms i ranges = emitRuns bins tms (?j + 1) (ranges @ [?r])"
      using True by (subst emitRuns.simps) (simp add: Let_def)
    have ih: "emitRuns bins tms (?j + 1) (ranges @ [?r]) =
        (ranges @ [?r]) @ map (rangeOfRun bins) (groupRuns bins (drop (?j + 1) tms))"
      using 1[OF True refl refl refl refl] by simp
    have tk: "take (?j + 1 - i) (drop i tms) \<noteq> []" using g True by simp
    have h: "hd (take (?j + 1 - i) (drop i tms)) = tms ! i"
      using g True by (simp add: hd_drop_conv_nth)
    have eq: "?j + 1 - i = Suc (?j - i)" using g by simp
    have "take (Suc (?j - i)) (drop i tms) = take (?j - i) (drop i tms) @ [drop i tms ! (?j - i)]"
      using g True by (intro take_Suc_conv_app_nth) simp
    then have l: "last (take (?j + 1 - i) (drop i tms)) = tms ! ?j"
      using g unfolding eq by simp
    have "rangeOfRun bins (take (?j + 1 - i) (drop i tms)) = ?r"
      by (simp only: rangeOfRun_def h l)
    then show ?thesis
      unfolding e ih by (subst g(3)) simp
  next
    case False
    then show ?thesis by (subst emitRuns.simps) simp
  qed
qed

lemma groupRuns_concat: "concat (groupRuns bins tms) = tms"
  by (induction tms) (auto split: list.splits)

lemma groupRuns_isRun: "run \<in> set (groupRuns bins tms) \<Longrightarrow> isRun bins run"
proof (induction tms arbitrary: run)
  case Nil
  then show ?case by simp
next
  case (Cons a tms)
  show ?case
  proof (cases "groupRuns bins tms")
    case Nil
    then show ?thesis using Cons by simp
  next
    case (Cons r rs)
    have "isRun bins r" using Cons.IH[of r] Cons by simp
    then have "linked bins a (hd r) \<Longrightarrow> isRun bins (a # r)"
      by (cases r) auto
    then show ?thesis
      using Cons.prems Cons.IH Cons by (auto split: if_splits)
  qed
qed

lemma groupRuns_maximal: "maximalRuns bins (groupRuns bins tms)"
proof (induction tms)
  case Nil
  then show ?case by simp
next
  case (Cons a tms)
  show ?case
  proof (cases "groupRuns bins tms")
    case Nil
    then show ?thesis by simp
  next
    case c: (Cons r rs)
    have m: "maximalRuns bins (r # rs)" using Cons c by simp
    have ne: "r \<noteq> []" using groupRuns_isRun[of r bins tms] c by (cases r) auto
    have "maximalRuns bins ((a # r) # rs)"
      using m ne by (cases rs) auto
    then show ?thesis using c m by simp
  qed
qed

section \<open>What the compacted Ranges decompress to\<close>

lemma isRun_props:
  "isRun bins run \<Longrightarrow>
     hd run \<le> last run \<and>
     last run + 300 = hd run + 300 * int (length run) \<and>
     (\<forall>t. t \<in> set run \<longleftrightarrow> (onGrid (hd run) t \<and> t < last run + 300)) \<and>
     (\<forall>t \<in> set run. binStatus bins t = binStatus bins (hd run))"
proof (induction bins run rule: isRun.induct)
  case (1 bins)
  then show ?case by simp
next
  case (2 bins a)
  have "t \<in> set [a] \<longleftrightarrow> (onGrid a t \<and> t < a + 300)" for t
    using onGrid_single[of a t] onGrid_refl[of a] by auto
  then show ?case by simp
next
  case (3 bins a b run)
  then have l: "b = a + 300" "binStatus bins b = binStatus bins a" and r: "isRun bins (b # run)"
    by (simp_all add: linked_def binSeconds_def binMinutes_def)
  note ih = 3(1)[OF r]
  have hl: "b \<le> last (b # run)" using ih by simp
  have len: "last (b # run) + 300 = b + 300 * int (length (b # run))" using ih by simp
  have mem: "t \<in> set (b # run) \<longleftrightarrow> (onGrid b t \<and> t < last (b # run) + 300)" for t
    using ih by simp
  have st: "\<forall>t \<in> set (b # run). binStatus bins t = binStatus bins b" using ih by simp
  have c1: "hd (a # b # run) \<le> last (a # b # run)" using hl l by simp
  have c2: "last (a # b # run) + 300 = hd (a # b # run) + 300 * int (length (a # b # run))"
    using len l by simp
  have c3: "t \<in> set (a # b # run) \<longleftrightarrow>
      (onGrid (hd (a # b # run)) t \<and> t < last (a # b # run) + 300)" for t
  proof -
    have "t \<in> set (a # b # run) \<longleftrightarrow> t = a \<or> t \<in> set (b # run)" by simp
    also have "\<dots> \<longleftrightarrow> t = a \<or> (onGrid b t \<and> t < last (b # run) + 300)"
      using mem[of t] by simp
    also have "\<dots> \<longleftrightarrow> (t = a \<or> onGrid b t) \<and> t < last (b # run) + 300"
      using hl l by auto
    also have "\<dots> \<longleftrightarrow> onGrid a t \<and> t < last (b # run) + 300"
      using onGrid_unfold[of a t] l by simp
    finally show ?thesis by simp
  qed
  have c4: "\<forall>t \<in> set (a # b # run). binStatus bins t = binStatus bins (hd (a # b # run))"
    using st l by simp
  show ?case using c1 c2 c3 c4 by blast
qed

lemma rangeOfRun_writes:
  assumes "isRun bins run" "floorToBin (hd run) = hd run"
  shows "rangeWrites (rangeOfRun bins run) wstart wend t \<longleftrightarrow> (t \<in> set run \<and> wstart \<le> t \<and> t < wend)"
proof -
  note p = isRun_props[OF assms(1)]
  have mem: "t \<in> set run \<longleftrightarrow> (onGrid (hd run) t \<and> t < last run + 300)"
    using p by blast
  have le: "onGrid (hd run) t \<Longrightarrow> hd run \<le> t" by (rule onGrid_le)
  show ?thesis
    unfolding mem using le
    by (auto simp: rangeWrites_def rangeOfRun_def loopWrites_onGrid assms(2)
        binSeconds_def binMinutes_def)
qed

lemma rangeStatus_runs:
  assumes "\<forall>run \<in> set runs. isRun bins run \<and> floorToBin (hd run) = hd run"
  shows "rangeStatus (map (rangeOfRun bins) runs) wstart wend t =
     (if t \<in> set (concat runs) \<and> wstart \<le> t \<and> t < wend then Some (binStatus bins t) else None)"
  using assms
proof (induction runs)
  case Nil
  then show ?case by simp
next
  case (Cons run runs)
  have r: "isRun bins run" "floorToBin (hd run) = hd run" using Cons.prems by auto
  have st: "t \<in> set run \<Longrightarrow> Status (rangeOfRun bins run) = binStatus bins t"
    using isRun_props[OF r(1)] by (simp add: rangeOfRun_def)
  show ?case
    using Cons st by (auto simp: rangeOfRun_writes[OF r])
qed

lemma rangeStatus_append:
  "rangeStatus (xs @ ys) wstart wend t =
     (case rangeStatus ys wstart wend t of Some w \<Rightarrow> Some w | None \<Rightarrow> rangeStatus xs wstart wend t)"
  by (induction xs) (auto split: option.splits)

lemma compactBins_noop: "card (dom (Bins s)) < 50 \<Longrightarrow> compactBins order s = s"
  by (simp add: compactBins_def)

lemma compactBins_acts:
  assumes "50 \<le> card (dom (Bins s))" "iterationOrder (Bins s) order"
  shows "compactBins order s =
     s\<lparr>Ranges := Ranges s @ map (rangeOfRun (Bins s))
                              (groupRuns (Bins s) (sorted_list_of_set (dom (Bins s)))),
       Bins := Map.empty\<rparr>"
proof -
  have "card (set order) \<noteq> 0" using assms by (simp add: iterationOrder_def)
  then have "order \<noteq> []" by (cases order) simp_all
  then show ?thesis
    using assms(1) by (simp add: compactBins_def Let_def sortOuter_order[OF assms(2)] emitRuns_group)
qed

lemma groupRuns_hd_mem: "run \<in> set (groupRuns bins tms) \<Longrightarrow> hd run \<in> set tms"
proof -
  assume a: "run \<in> set (groupRuns bins tms)"
  then have "run \<noteq> []" using groupRuns_isRun[OF a] by (cases run) auto
  then have "hd run \<in> set run" by (rule hd_in_set)
  then have "hd run \<in> set (concat (groupRuns bins tms))" using a by auto
  then show ?thesis by (simp add: groupRuns_concat)
qed

lemma fetchBins_compacted:
  assumes "50 \<le> card (dom (Bins s))" "iterationOrder (Bins s) order"
    and "\<forall>k \<in> dom (Bins s). floorToBin k = k"
  shows "fetchBins (compactBins order s) wstart wend t =
     (case rawInWindow (Bins s) wstart wend t of
        Some v \<Rightarrow> Some v
      | None \<Rightarrow> rangeStatus (Ranges s) wstart wend t)"
proof -
  let ?keys = "sorted_list_of_set (dom (Bins s))"
  let ?runs = "groupRuns (Bins s) ?keys"
  have fin: "finite (dom (Bins s))" using assms(2) by (metis iterationOrder_def List.finite_set)
  have keys: "set ?keys = dom (Bins s)" using fin by simp
  have runs: "\<forall>run \<in> set ?runs. isRun (Bins s) run \<and> floorToBin (hd run) = hd run"
    using groupRuns_isRun groupRuns_hd_mem[of _ "Bins s" ?keys] assms(3) keys by blast
  have cc: "set (concat ?runs) = dom (Bins s)" by (simp add: groupRuns_concat keys)
  have new: "rangeStatus (map (rangeOfRun (Bins s)) ?runs) wstart wend t =
      rawInWindow (Bins s) wstart wend t"
    unfolding rangeStatus_runs[OF runs] cc
    by (auto simp: rawInWindow_def binStatus_def dom_def)
  show ?thesis
    unfolding compactBins_acts[OF assms(1,2)]
    by (simp add: fetchBins_apply rangeStatus_append new rawInWindow_def split: option.splits)
qed

lemma small_compaction:
  "emitRuns [0 \<mapsto> 1, 300 \<mapsto> 1, 600 \<mapsto> 1, 1200 \<mapsto> 1] (sortOuter 0 [1200, 300, 0, 600]) 0 [] =
     [\<lparr>Start = 0, End = 900, Status = 1, Tag = [], Note = []\<rparr>,
      \<lparr>Start = 1200, End = 1500, Status = 1, Tag = [], Note = []\<rparr>]"
proof -
  have s: "sortOuter 0 [1200, 300, 0, 600] = [0, 300, 600, 1200]"
    by (simp add: sortOuter.simps sortInner.simps)
  show ?thesis
    unfolding s
    by (simp add: emitRuns.simps runEnd.simps binStatus_def binSeconds_def binMinutes_def Let_def)
qed

section \<open>Facts about the concrete stores\<close>

lemma gridBins_dom: "dom (gridBins n v) = (\<lambda>i. 300 * int i) ` {..<n}"
proof (rule set_eqI)
  fix k :: int
  show "k \<in> dom (gridBins n v) \<longleftrightarrow> k \<in> (\<lambda>i. 300 * int i) ` {..<n}"
  proof
    assume "k \<in> dom (gridBins n v)"
    then have k: "0 \<le> k" "k < 300 * int n" "k mod 300 = 0"
      by (auto simp: gridBins_def dom_def split: if_splits)
    then have "k = 300 * int (nat (k div 300))" by auto
    moreover have "nat (k div 300) < n" using k by auto
    ultimately show "k \<in> (\<lambda>i. 300 * int i) ` {..<n}" by blast
  next
    assume "k \<in> (\<lambda>i. 300 * int i) ` {..<n}"
    then show "k \<in> dom (gridBins n v)" by (auto simp: gridBins_def dom_def)
  qed
qed

lemma gridOrder_set: "set (gridOrder n) = (\<lambda>i. 300 * int i) ` {..<n}"
  by (auto simp: gridOrder_def)

lemma gridOrder_distinct: "distinct (gridOrder n)"
  by (simp add: gridOrder_def distinct_map inj_on_def)

lemma gridBins_card: "card (dom (gridBins n v)) = n"
proof -
  have "inj_on (\<lambda>i. 300 * int i) {..<n}" by (simp add: inj_on_def)
  then show ?thesis by (simp add: gridBins_dom card_image)
qed

lemma gridOrder_iteration: "iterationOrder (gridBins n v) (gridOrder n)"
  by (simp add: iterationOrder_def gridOrder_distinct gridOrder_set gridBins_dom)

lemma gridBins_aligned: "k \<in> dom (gridBins n v) \<Longrightarrow> floorToBin k = k"
  by (auto simp: gridBins_def dom_def floorToBin_eq split: if_splits)

lemma gridBins_finite: "finite (dom (gridBins n v))"
  by (simp add: gridBins_dom)

lemma gridBins_fresh: "300 * int n \<le> k \<Longrightarrow> gridBins n v k = None"
  by (simp add: gridBins_def)

lemma gridBins_value: "gridBins n v k = Some u \<Longrightarrow> u = v"
  by (simp add: gridBins_def split: if_splits)

lemma upsertBin_fresh: "Bins s k = None \<Longrightarrow> Bins (upsertBin s k True) = (Bins s)(k \<mapsto> 1)"
  by (simp add: upsertBin_def binStatus_def)

lemma iterationOrder_insert:
  "iterationOrder m order \<Longrightarrow> m k = None \<Longrightarrow> iterationOrder (m(k \<mapsto> v)) (k # order)"
  by (auto simp: iterationOrder_def)

lemma card_dom_insert:
  "finite (dom m) \<Longrightarrow> m k = None \<Longrightarrow> card (dom (m(k \<mapsto> v))) = Suc (card (dom m))"
  by (simp add: domIff)

lemma grid_upsert_bins:
  "Bins (upsertBin (gridStore n) (300 * int n) True) = (gridBins n 1)(300 * int n \<mapsto> 1)"
  using upsertBin_fresh[of "gridStore n" "300 * int n"]
  by (simp add: gridStore_def gridBins_fresh)

lemma grid_upsert_card:
  "card (dom (Bins (upsertBin (gridStore n) (300 * int n) True))) = Suc n"
  unfolding grid_upsert_bins
  by (subst card_dom_insert) (simp_all add: gridBins_finite gridBins_fresh gridBins_card)

lemma grid_upsert_order:
  "iterationOrder (Bins (upsertBin (gridStore n) (300 * int n) True)) (300 * int n # gridOrder n)"
  unfolding grid_upsert_bins
  by (intro iterationOrder_insert gridOrder_iteration gridBins_fresh) simp

section \<open>The resolved sequence covers the grid of the window\<close>

lemma binSeq_set: "t \<in> set (binSeq cur stop) \<longleftrightarrow> (onGrid cur t \<and> t < stop)"
proof (induction cur stop rule: binSeq.induct)
  case (1 cur stop)
  show ?case
  proof (cases "cur < stop")
    case True
    have "t \<in> set (binSeq cur stop) \<longleftrightarrow> t = cur \<or> t \<in> set (binSeq (cur + 300) stop)"
      using True by (subst binSeq.simps) (simp add: binSeconds_def binMinutes_def)
    also have "\<dots> \<longleftrightarrow> t = cur \<or> (onGrid (cur + 300) t \<and> t < stop)"
      using 1[OF True] by (simp add: binSeconds_def binMinutes_def)
    also have "\<dots> \<longleftrightarrow> (t = cur \<or> onGrid (cur + 300) t) \<and> t < stop"
      using True by auto
    finally show ?thesis
      using onGrid_unfold[of cur t] by simp
  next
    case False
    have "\<not> (onGrid cur t \<and> t < stop)"
      using False onGrid_le[of cur t] by auto
    then show ?thesis
      using False by (subst binSeq.simps) simp
  qed
qed

lemma binSeq_distinct: "distinct (binSeq cur stop)"
proof (induction cur stop rule: binSeq.induct)
  case (1 cur stop)
  show ?case
  proof (cases "cur < stop")
    case True
    have "cur \<notin> set (binSeq (cur + 300) stop)"
      using onGrid_le[of "cur + 300" cur] by (auto simp: binSeq_set)
    then show ?thesis
      using True 1[OF True] by (subst binSeq.simps) (simp add: binSeconds_def binMinutes_def)
  next
    case False
    then show ?thesis by (subst binSeq.simps) simp
  qed
qed

lemma binSeq_nth:
  "i < length (binSeq cur stop) \<Longrightarrow> binSeq cur stop ! i = cur + binSeconds * int i"
proof (induction cur stop arbitrary: i rule: binSeq.induct)
  case (1 cur stop)
  show ?case
  proof (cases "cur < stop")
    case True
    have e: "binSeq cur stop = cur # binSeq (cur + binSeconds) stop"
      using True by (subst binSeq.simps) simp
    show ?thesis
    proof (cases i)
      case 0
      then show ?thesis by (simp add: e)
    next
      case (Suc j)
      then have "j < length (binSeq (cur + binSeconds) stop)"
        using 1(2) by (simp add: e)
      then have "binSeq (cur + binSeconds) stop ! j = cur + binSeconds + binSeconds * int j"
        by (rule 1(1)[OF True])
      then show ?thesis
        using Suc by (simp add: e algebra_simps)
    qed
  next
    case False
    then have "binSeq cur stop = []" by (subst binSeq.simps) simp
    then show ?thesis using 1(2) by simp
  qed
qed

lemma fold_idle:
  "fold (\<lambda>t m. m(t \<mapsto> 0)) seq m0 t = (if t \<in> set seq then Some (0::int) else m0 t)"
  by (induction seq arbitrary: m0) auto

lemma statusMap_apply:
  "statusMap s wstart wend t =
     (case fetchBins s wstart wend t of
        Some v \<Rightarrow> Some v
      | None \<Rightarrow> if t \<in> set (windowSeq wstart wend) then Some 0 else None)"
  by (simp add: statusMap_def Let_def map_add_def fold_idle split: option.splits)

lemma resolvedSeq_status:
  "resolvedSeq s wstart wend =
     map (\<lambda>t. (t, case fetchBins s wstart wend t of None \<Rightarrow> 0 | Some v \<Rightarrow> v))
       (windowSeq wstart wend)"
  by (simp add: resolvedSeq_def binStatus_def statusMap_apply split: option.splits)

lemma totalsLoop_sum:
  "fst (totalsLoop status seq (w, i)) + snd (totalsLoop status seq (w, i)) =
     w + i + binMinutes * int (length seq)"
  by (induction status seq "(w, i)" arbitrary: w i rule: totalsLoop.induct)
     (auto simp: algebra_simps)

lemma windowSeq_0_1500: "windowSeq 0 1500 = [0, 300, 600, 900, 1200]"
  by (simp add: windowSeq_def floorToBin_eq binSeq.simps binSeconds_def binMinutes_def)

section \<open>The focus scan computes the longest working block and the switches\<close>

lemma countSwitches_Cons:
  "countSwitches (p # x # sts) = (if p \<noteq> x then 1 else 0) + countSwitches (x # sts)"
  by (simp add: countSwitches_def)

lemma countSwitches_single: "countSwitches [x] = 0"
  by (simp add: countSwitches_def)

lemma countSwitches_hd: "sts \<noteq> [] \<Longrightarrow> countSwitches (hd sts # sts) = countSwitches sts"
  by (cases sts) (simp_all add: countSwitches_Cons)

lemma countSwitches_card:
  "countSwitches sts = int (card {i. Suc i < length sts \<and> sts ! i \<noteq> sts ! Suc i})"
proof -
  have "{i. i < length (zip sts (tl sts)) \<and> (\<lambda>(a, b). a \<noteq> b) (zip sts (tl sts) ! i)} =
        {i. Suc i < length sts \<and> sts ! i \<noteq> sts ! Suc i}"
    by (auto simp: nth_tl)
  then show ?thesis
    by (simp add: countSwitches_def length_filter_conv_card)
qed

lemma runsMax_ge: "c \<le> runsMax c sts"
proof (induction sts arbitrary: c)
  case Nil
  then show ?case by simp
next
  case (Cons x sts)
  show ?case using Cons[of "Suc c"] by (simp add: Suc_leD)
qed

lemma runsMax_prefix: "sts = replicate k 1 @ post \<Longrightarrow> c + k \<le> runsMax c sts"
proof (induction k arbitrary: c sts)
  case 0
  then show ?case by (simp add: runsMax_ge)
next
  case (Suc k)
  then have "sts = 1 # (replicate k 1 @ post)" by simp
  then show ?case using Suc.IH[of "replicate k 1 @ post" "Suc c"] by simp
qed

lemma runsMax_block: "sts = pre @ replicate m 1 @ post \<Longrightarrow> m \<le> runsMax c sts"
proof (induction pre arbitrary: c sts)
  case Nil
  then show ?case using runsMax_prefix[of sts m post c] by simp
next
  case (Cons x pre)
  then have s: "sts = x # (pre @ replicate m 1 @ post)" by simp
  show ?case
    unfolding s using Cons.IH[OF refl, of "Suc c"] Cons.IH[OF refl, of 0]
    by (simp add: le_max_iff_disj)
qed

lemma runsMax_attained:
  "(\<exists>k post. sts = replicate k 1 @ post \<and> runsMax c sts = c + k) \<or>
   (\<exists>pre post. sts = pre @ replicate (runsMax c sts) 1 @ post)"
proof (induction sts arbitrary: c)
  case Nil
  have "[] = replicate 0 (1::int) @ [] \<and> runsMax c [] = c + 0" by simp
  then show ?case by blast
next
  case (Cons x sts)
  show ?case
  proof (cases "x = 1")
    case True
    from Cons[of "Suc c"] show ?thesis
    proof
      assume "\<exists>k post. sts = replicate k 1 @ post \<and> runsMax (Suc c) sts = Suc c + k"
      then obtain k post where "sts = replicate k 1 @ post" "runsMax (Suc c) sts = Suc c + k"
        by blast
      then have "x # sts = replicate (Suc k) 1 @ post \<and> runsMax c (x # sts) = c + Suc k"
        using True by simp
      then show ?thesis by blast
    next
      assume "\<exists>pre post. sts = pre @ replicate (runsMax (Suc c) sts) 1 @ post"
      then obtain pre post where "sts = pre @ replicate (runsMax (Suc c) sts) 1 @ post"
        by blast
      then have "x # sts = (x # pre) @ replicate (runsMax c (x # sts)) 1 @ post"
        using True by simp
      then show ?thesis by blast
    qed
  next
    case False
    show ?thesis
    proof (cases "runsMax 0 sts \<le> c")
      case le: True
      have "x # sts = replicate 0 1 @ (x # sts) \<and> runsMax c (x # sts) = c + 0"
        using False le by simp
      then show ?thesis by blast
    next
      case gt: False
      then have r: "runsMax c (x # sts) = runsMax 0 sts" using False by simp
      from Cons[of 0] show ?thesis
      proof
        assume "\<exists>k post. sts = replicate k 1 @ post \<and> runsMax 0 sts = 0 + k"
        then obtain k post where "sts = replicate k 1 @ post" "runsMax 0 sts = k" by auto
        then have "x # sts = [x] @ replicate (runsMax c (x # sts)) 1 @ post"
          unfolding r by simp
        then show ?thesis by blast
      next
        assume "\<exists>pre post. sts = pre @ replicate (runsMax 0 sts) 1 @ post"
        then obtain pre post where "sts = pre @ replicate (runsMax 0 sts) 1 @ post" by blast
        then have "x # sts = (x # pre) @ replicate (runsMax c (x # sts)) 1 @ post"
          unfolding r by simp
        then show ?thesis by blast
      qed
    qed
  qed
qed

lemma runsMax_0_attained: "\<exists>pre post. sts = pre @ replicate (runsMax 0 sts) 1 @ post"
proof -
  from runsMax_attained[of sts 0] show ?thesis
  proof
    assume "\<exists>k post. sts = replicate k 1 @ post \<and> runsMax 0 sts = 0 + k"
    then obtain k post where "sts = replicate k 1 @ post" "runsMax 0 sts = k" by auto
    then have "sts = [] @ replicate (runsMax 0 sts) 1 @ post" by simp
    then show ?thesis by blast
  qed
qed

lemma focusLoop_result:
  "cf = binMinutes * int c \<Longrightarrow> cf \<le> lf \<Longrightarrow>
   focusLoop status seq lf cf prev cs =
     (max lf (binMinutes * int (runsMax c (map (binStatus status) seq))),
      cs + countSwitches (prev # map (binStatus status) seq))"
proof (induction seq arbitrary: lf cf c prev cs)
  case Nil
  then show ?case by (simp add: countSwitches_single)
next
  case (Cons t seq)
  let ?x = "binStatus status t"
  let ?sts = "map (binStatus status) seq"
  let ?cs = "if ?x \<noteq> prev then cs + 1 else cs"
  have sw: "cs + countSwitches (prev # map (binStatus status) (t # seq)) =
            ?cs + countSwitches (?x # ?sts)"
    by (simp add: countSwitches_Cons)
  show ?case
  proof (cases "?x = 1")
    case True
    let ?cf = "cf + binMinutes"
    have c1: "?cf = binMinutes * int (Suc c)" using Cons.prems by (simp add: algebra_simps)
    have c2: "?cf \<le> max lf ?cf" by simp
    have step: "focusLoop status (t # seq) lf cf prev cs =
                focusLoop status seq (max lf ?cf) ?cf ?x ?cs"
      using True by (simp add: Let_def max_def)
    have ih: "focusLoop status seq (max lf ?cf) ?cf ?x ?cs =
       (max (max lf ?cf) (binMinutes * int (runsMax (Suc c) ?sts)),
        ?cs + countSwitches (?x # ?sts))"
      by (rule Cons.IH[OF c1 c2])
    have "int (Suc c) \<le> int (runsMax (Suc c) ?sts)"
      using runsMax_ge[of "Suc c" ?sts] by (simp only: of_nat_le_iff)
    then have ge: "?cf \<le> binMinutes * int (runsMax (Suc c) ?sts)"
      unfolding c1 by (simp add: binMinutes_def)
    have mx: "max (max lf ?cf) (binMinutes * int (runsMax (Suc c) ?sts)) =
              max lf (binMinutes * int (runsMax (Suc c) ?sts))"
      using ge by (simp add: max_def)
    have rm: "runsMax c (map (binStatus status) (t # seq)) = runsMax (Suc c) ?sts"
      using True by simp
    show ?thesis
      unfolding step ih mx rm sw ..
  next
    case False
    have c1: "(0::int) = binMinutes * int 0" by simp
    have c2: "0 \<le> lf" using Cons.prems by (simp add: binMinutes_def)
    have step: "focusLoop status (t # seq) lf cf prev cs = focusLoop status seq lf 0 ?x ?cs"
      using False by (simp add: Let_def)
    have ih: "focusLoop status seq lf 0 ?x ?cs =
       (max lf (binMinutes * int (runsMax 0 ?sts)), ?cs + countSwitches (?x # ?sts))"
      by (rule Cons.IH[OF c1 c2])
    have rm: "runsMax c (map (binStatus status) (t # seq)) = max c (runsMax 0 ?sts)"
      using False by simp
    have "binMinutes * int c \<le> lf" using Cons.prems by simp
    then have mx: "max lf (binMinutes * int (max c (runsMax 0 ?sts))) =
                   max lf (binMinutes * int (runsMax 0 ?sts))"
      by (auto simp: max_def binMinutes_def)
    show ?thesis
      unfolding step ih rm mx sw ..
  qed
qed

lemma calculateFocusStats_result:
  "calculateFocusStats s now =
     (binMinutes * int (runsMax 0 (map snd (resolvedSeq s (dayStart now) now))),
      countSwitches (map snd (resolvedSeq s (dayStart now) now)))"
proof -
  let ?seq = "windowSeq (dayStart now) now"
  let ?status = "statusMap s (dayStart now) now"
  have sts: "map snd (resolvedSeq s (dayStart now) now) = map (binStatus ?status) ?seq"
    by (simp add: resolvedSeq_def comp_def)
  show ?thesis
  proof (cases "?seq = []")
    case True
    then show ?thesis
      by (simp add: calculateFocusStats_def sts countSwitches_def)
  next
    case False
    have h: "binStatus ?status (?seq ! 0) = hd (map (binStatus ?status) ?seq)"
      using False by (simp add: hd_conv_nth hd_map)
    have ne: "map (binStatus ?status) ?seq \<noteq> []" using False by simp
    have "focusLoop ?status ?seq 0 0 (binStatus ?status (?seq ! 0)) 0 =
       (max 0 (binMinutes * int (runsMax 0 (map (binStatus ?status) ?seq))),
        0 + countSwitches (binStatus ?status (?seq ! 0) # map (binStatus ?status) ?seq))"
      by (rule focusLoop_result) simp_all
    also have "\<dots> = (binMinutes * int (runsMax 0 (map (binStatus ?status) ?seq)),
        countSwitches (map (binStatus ?status) ?seq))"
      unfolding h countSwitches_hd[OF ne] by (simp add: binMinutes_def)
    finally show ?thesis
      using False unfolding sts by (simp add: calculateFocusStats_def Let_def)
  qed
qed

lemma focusStore_statuses: "dayStatuses focusStore 1500 = [0, 0, 1, 1, 0]"
proof -
  have f: "fetchBins focusStore 0 1500 = [600 \<mapsto> 1, 900 \<mapsto> 1]"
    by (auto simp: fetchBins_def focusStore_def rawInWindow_def)
  have d: "dayStart 1500 = 0" by (simp add: dayStart_def)
  show ?thesis
    by (simp add: dayStatuses_def d resolvedSeq_status windowSeq_0_1500 f)
qed

section \<open>Go arithmetic in range\<close>

lemma sdiv_nonneg: "0 \<le> a \<Longrightarrow> 0 \<le> b \<Longrightarrow> a sdiv b = a div b" for a b :: int
  by (simp add: signed_divide_int_def sgn_if)

lemma wrap64_id: "- (2 ^ 63) \<le> x \<Longrightarrow> x < 2 ^ 63 \<Longrightarrow> wrap64 x = x"
  by (simp add: wrap64_def)

section \<open>Parsing of configuration input\<close>

lemma splitOn_nonempty: "splitOn c s \<noteq> []"
  by (induction s) (auto split: list.splits)

lemma splitOn_no_sep: "c \<notin> set s \<Longrightarrow> splitOn c s = [s]"
  by (induction s) auto

lemma splitOn_append: "c \<notin> set a \<Longrightarrow> splitOn c (a @ c # b) = a # splitOn c b"
  by (induction a) auto

lemma splitOn_Cons:
  "splitOn c s = p # ps \<Longrightarrow>
     c \<notin> set p \<and> (if ps = [] then s = p else \<exists>rest. s = p @ c # rest \<and> splitOn c rest = ps)"
proof (induction s arbitrary: p ps)
  case Nil
  then show ?case by simp
next
  case (Cons x s)
  show ?case
  proof (cases "x = c")
    case True
    then have "p = []" "ps = splitOn c s" using Cons.prems by auto
    then show ?thesis using True splitOn_nonempty[of c s] by auto
  next
    case False
    obtain q qs where q: "splitOn c s = q # qs"
      using splitOn_nonempty[of c s] by (cases "splitOn c s") auto
    then have p: "p = x # q" "ps = qs" using Cons.prems False by auto
    show ?thesis
      using Cons.IH[OF q] False unfolding p by (auto split: if_splits)
  qed
qed

lemma splitOn_two:
  assumes "splitOn c s = [a, b]"
  shows "s = a @ c # b \<and> c \<notin> set a \<and> c \<notin> set b"
proof -
  from splitOn_Cons[OF assms] obtain rest where
    r: "c \<notin> set a" "s = a @ c # rest" "splitOn c rest = [b]" by auto
  from splitOn_Cons[OF r(3)] have "c \<notin> set b" "rest = b" by auto
  then show ?thesis using r by simp
qed

lemma length_two: "length xs = 2 \<Longrightarrow> xs = [xs ! 0, xs ! 1]"
  by (cases xs; cases "tl xs") auto

lemma tokens_no_dash: "CHR ''-'' \<notin> set s \<Longrightarrow> tokens s = splitOn CHR '','' s"
  by (induction s) auto

lemma tokens_no_sep: "CHR '','' \<notin> set s \<Longrightarrow> CHR ''-'' \<notin> set s \<Longrightarrow> tokens s = [s]"
  by (induction s) auto

lemma tokens_dash:
  "CHR '','' \<notin> set a \<Longrightarrow> CHR ''-'' \<notin> set a \<Longrightarrow> tokens (a @ CHR ''-'' # b) = a # tokens b"
  by (induction a) auto

lemma dayMap_names:
  "dayMap k \<noteq> None \<longleftrightarrow> k \<in> set [''mon'', ''tue'', ''wed'', ''thu'', ''fri'', ''sat'', ''sun'']"
  by (simp add: dayMap_def)

lemma toLowerChar_letter:
  assumes "toLowerChar c \<in> set ''montuewdhfrisa''"
  shows "c \<in> set ''montuewdhfrisaMONTUEWDHFRISA''"
proof (cases "map_of (zip ''ABCDEFGHIJKLMNOPQRSTUVWXYZ'' ''abcdefghijklmnopqrstuvwxyz'') c")
  case None
  then have "toLowerChar c = c" unfolding toLowerChar_def by simp
  then show ?thesis using assms by auto
next
  case (Some l)
  then have t: "toLowerChar c = l" unfolding toLowerChar_def by simp
  have "(c, l) \<in> set (zip ''ABCDEFGHIJKLMNOPQRSTUVWXYZ'' ''abcdefghijklmnopqrstuvwxyz'')"
    using Some by (rule map_of_SomeD)
  then have "(c, l) \<in> {(CHR ''A'', CHR ''a''), (CHR ''B'', CHR ''b''), (CHR ''C'', CHR ''c''),
      (CHR ''D'', CHR ''d''), (CHR ''E'', CHR ''e''), (CHR ''F'', CHR ''f''), (CHR ''G'', CHR ''g''),
      (CHR ''H'', CHR ''h''), (CHR ''I'', CHR ''i''), (CHR ''J'', CHR ''j''), (CHR ''K'', CHR ''k''),
      (CHR ''L'', CHR ''l''), (CHR ''M'', CHR ''m''), (CHR ''N'', CHR ''n''), (CHR ''O'', CHR ''o''),
      (CHR ''P'', CHR ''p''), (CHR ''Q'', CHR ''q''), (CHR ''R'', CHR ''r''), (CHR ''S'', CHR ''s''),
      (CHR ''T'', CHR ''t''), (CHR ''U'', CHR ''u''), (CHR ''V'', CHR ''v''), (CHR ''W'', CHR ''w''),
      (CHR ''X'', CHR ''x''), (CHR ''Y'', CHR ''y''), (CHR ''Z'', CHR ''z'')}"
    by simp
  moreover have "l \<in> set ''montuewdhfrisa''" using assms t by simp
  ultimately show ?thesis by auto
qed

lemma toLower_Nil: "toLower [] = []"
  by (subst toLower.simps) simp

lemma toLower_I:
  assumes "take 2 s = [CHR 0xC4, CHR 0xB0]"
  shows "toLower s = CHR ''i'' # toLower (drop 2 s)"
proof -
  have "s \<noteq> []" using assms by auto
  then show ?thesis
    by (subst toLower.simps) (simp only: list.case_eq_if assms if_True if_False simp_thms)
qed

lemma toLower_K:
  assumes "take 2 s \<noteq> [CHR 0xC4, CHR 0xB0]" and "take 3 s = [CHR 0xE2, CHR 0x84, CHR 0xAA]"
  shows "toLower s = CHR ''k'' # toLower (drop 3 s)"
proof -
  have "s \<noteq> []" using assms(2) by auto
  then show ?thesis
    by (subst toLower.simps) (simp only: list.case_eq_if assms if_True if_False simp_thms)
qed

lemma toLower_O:
  assumes "s \<noteq> []" and "take 2 s \<noteq> [CHR 0xC4, CHR 0xB0]"
    and "take 3 s \<noteq> [CHR 0xE2, CHR 0x84, CHR 0xAA]"
  shows "toLower s = toLowerChar (hd s) # toLower (tl s)"
  by (subst toLower.simps) (simp only: list.case_eq_if assms if_True if_False simp_thms)

lemma toLower_bytes:
  "set (toLower s) \<subseteq> set ''montuewdhfrisa'' \<Longrightarrow> set s \<subseteq> set dayBytes"
proof (induction s rule: toLower.induct)
  case (1 s)
  show ?case
  proof (cases s)
    case Nil
    then show ?thesis by simp
  next
    case (Cons c cs)
    consider (I) "take 2 s = [CHR 0xC4, CHR 0xB0]"
      | (K) "take 2 s \<noteq> [CHR 0xC4, CHR 0xB0]" "take 3 s = [CHR 0xE2, CHR 0x84, CHR 0xAA]"
      | (O) "take 2 s \<noteq> [CHR 0xC4, CHR 0xB0]" "take 3 s \<noteq> [CHR 0xE2, CHR 0x84, CHR 0xAA]"
      by blast
    then show ?thesis
    proof cases
      case I
      note e = toLower_I[OF I]
      have s2: "s = [CHR 0xC4, CHR 0xB0] @ drop 2 s"
        using append_take_drop_id[of 2 s] unfolding I by simp
      have "set (toLower (drop 2 s)) \<subseteq> set ''montuewdhfrisa''"
        using 1(4) unfolding e by simp
      then have "set (drop 2 s) \<subseteq> set dayBytes"
        by (rule 1(1)[OF Cons I])
      then have "set ([CHR 0xC4, CHR 0xB0] @ drop 2 s) \<subseteq> set dayBytes"
        by (simp add: dayBytes_def)
      then show ?thesis by (subst s2)
    next
      case K
      note e = toLower_K[OF K]
      have "CHR ''k'' \<in> set ''montuewdhfrisa''" using 1(4) unfolding e by simp
      then show ?thesis by simp
    next
      case O
      have ne: "s \<noteq> []" using Cons by simp
      have e: "toLower s = toLowerChar c # toLower cs"
        using toLower_O[OF ne O] Cons by simp
      have c: "toLowerChar c \<in> set ''montuewdhfrisa''"
        and cs: "set (toLower cs) \<subseteq> set ''montuewdhfrisa''"
        using 1(4) unfolding e by simp_all
      have "c \<in> set ''montuewdhfrisaMONTUEWDHFRISA''"
        using c by (rule toLowerChar_letter)
      then have "c \<in> set dayBytes" unfolding dayBytes_def by (simp only: set_append UnI1)
      moreover have "set cs \<subseteq> set dayBytes"
        using cs by (rule 1(3)[OF Cons O])
      ultimately show ?thesis using Cons by simp
    qed
  qed
qed

lemma spaceEncodings_heads_all:
  "list_all (\<lambda>w. hd w \<notin> set dayBytes) spaceEncodings"
  "list_all (\<lambda>w. hd w \<notin> set dayBytes) (map rev spaceEncodings)"
  by (simp_all add: spaceEncodings_def dayBytes_def)

lemma spaceEncodings_heads:
  "w \<in> set spaceEncodings \<Longrightarrow> hd w \<notin> set dayBytes"
  "w \<in> set (map rev spaceEncodings) \<Longrightarrow> hd w \<notin> set dayBytes"
  using spaceEncodings_heads_all unfolding list_all_iff by blast+

lemma day_letters:
  assumes "d \<in> set [''mon'', ''tue'', ''wed'', ''thu'', ''fri'', ''sat'', ''sun'']"
  shows "set d \<subseteq> set ''montuewdhfrisa''"
proof -
  have "list_all (\<lambda>d. set d \<subseteq> set ''montuewdhfrisa'')
          [''mon'', ''tue'', ''wed'', ''thu'', ''fri'', ''sat'', ''sun'']"
    by simp
  then show ?thesis using assms by (simp only: list_all_iff)
qed

lemma stripLeading_id:
  assumes "\<And>w. w \<in> set encs \<Longrightarrow> w \<noteq> [] \<Longrightarrow> hd w \<notin> set s"
  shows "stripLeading encs s = s"
proof -
  have "\<not> (w \<noteq> [] \<and> take (length w) s = w)" if "w \<in> set encs" for w
  proof
    assume a: "w \<noteq> [] \<and> take (length w) s = w"
    then have ne: "s \<noteq> []" by auto
    have "hd (take (length w) s) = hd s" using a by (cases w; cases s) auto
    then have "hd w = hd s" using a by simp
    then have "hd w \<in> set s" using ne by simp
    then show False using assms[OF that] a by blast
  qed
  then have "find (\<lambda>w. w \<noteq> [] \<and> take (length w) s = w) encs = None"
    by (simp add: find_None_iff)
  then show ?thesis by (subst stripLeading.simps) simp
qed

lemma trimSpace_dayBytes:
  assumes "set s \<subseteq> set dayBytes"
  shows "trimSpace s = s"
proof -
  have l: "stripLeading spaceEncodings s = s"
    using spaceEncodings_heads(1) assms by (intro stripLeading_id) blast
  have "set (rev s) \<subseteq> set dayBytes" using assms by simp
  then have r: "stripLeading (map rev spaceEncodings) (rev s) = rev s"
    using spaceEncodings_heads(2) by (intro stripLeading_id) blast
  show ?thesis by (simp add: trimSpace_def l r)
qed

lemma day_bytes:
  assumes "dayMap (toLower a) \<noteq> None"
  shows "set a \<subseteq> set dayBytes"
proof -
  have "toLower a \<in> set [''mon'', ''tue'', ''wed'', ''thu'', ''fri'', ''sat'', ''sun'']"
    using assms by (simp only: dayMap_names)
  then have "set (toLower a) \<subseteq> set ''montuewdhfrisa''"
    by (rule day_letters)
  then show ?thesis by (rule toLower_bytes)
qed

lemma day_namesDay: "dayMap (toLower a) \<noteq> None \<Longrightarrow> namesDay a"
proof -
  assume a: "dayMap (toLower a) \<noteq> None"
  then have n: "toLower a \<in> set [''mon'', ''tue'', ''wed'', ''thu'', ''fri'', ''sat'', ''sun'']"
    by (simp only: dayMap_names)
  have "trimSpace a = a"
    using day_bytes[OF a] by (rule trimSpace_dayBytes)
  then show ?thesis using n by (simp only: namesDay_def)
qed

lemma day_no_sep:
  assumes "dayMap (toLower a) \<noteq> None"
  shows "CHR '','' \<notin> set a \<and> CHR ''-'' \<notin> set a"
proof -
  have "CHR '','' \<notin> set dayBytes" "CHR ''-'' \<notin> set dayBytes"
    by (simp_all add: dayBytes_def)
  then show ?thesis using day_bytes[OF assms] by blast
qed

lemma dayList_ok:
  "dayList parts days = Inr ds \<Longrightarrow> \<forall>p \<in> set parts. namesDay p"
proof (induction parts arbitrary: days)
  case Nil
  then show ?case by simp
next
  case (Cons p parts)
  then obtain d where d: "dayMap (toLower (trimSpace p)) = Some d"
    by (auto split: option.splits)
  then have "toLower (trimSpace p) \<in> set [''mon'', ''tue'', ''wed'', ''thu'', ''fri'', ''sat'', ''sun'']"
    using dayMap_names[of "toLower (trimSpace p)"] by simp
  then have "namesDay p" by (simp only: namesDay_def)
  moreover have "dayList parts (days @ [d]) = Inr ds" using Cons.prems d by simp
  ultimately show ?case using Cons.IH by auto
qed

lemma parseWorkDays_ok:
  assumes "parseWorkDays w = Inr ds"
  shows "\<forall>tok \<in> set (tokens w). namesDay tok"
proof (cases "CHR ''-'' \<in> set w")
  case True
  let ?parts = "splitOn CHR ''-'' w"
  have len: "length ?parts = 2"
    using assms True by (auto simp: parseWorkDays_def Let_def split: if_splits)
  then have parts: "?parts = [?parts ! 0, ?parts ! 1]" by (rule length_two)
  have days: "dayMap (toLower (?parts ! 0)) \<noteq> None" "dayMap (toLower (?parts ! 1)) \<noteq> None"
    using assms True len by (auto simp: parseWorkDays_def Let_def split: option.splits)
  have w: "w = (?parts ! 0) @ CHR ''-'' # (?parts ! 1)"
    using splitOn_two[OF parts] by blast
  have "tokens w = [?parts ! 0, ?parts ! 1]"
    using day_no_sep[OF days(1)] day_no_sep[OF days(2)]
    by (subst w) (simp add: tokens_dash tokens_no_sep)
  then show ?thesis
    using day_namesDay[OF days(1)] day_namesDay[OF days(2)] by simp
next
  case False
  then have "dayList (splitOn CHR '','' w) [] = Inr ds"
    using assms by (simp add: parseWorkDays_def)
  then show ?thesis
    using dayList_ok False by (simp add: tokens_no_dash)
qed

lemma Atoi_ok: "Atoi s = Inr v \<Longrightarrow> isInteger s"
  by (cases s) (auto simp: Atoi_def isInteger_def Let_def split: if_splits)

lemma parseTimeToMinutes_ok:
  assumes "parseTimeToMinutes t = Inr m"
  shows "\<exists>a b. t = a @ '':'' @ b \<and> isInteger a \<and> isInteger b"
proof -
  let ?parts = "splitOn CHR '':'' t"
  have len: "length ?parts = 2"
    using assms by (auto simp: parseTimeToMinutes_def Let_def split: if_splits)
  then have parts: "?parts = [?parts ! 0, ?parts ! 1]" by (rule length_two)
  obtain h mi where a: "Atoi (?parts ! 0) = Inr h" "Atoi (?parts ! 1) = Inr mi"
    using assms len by (auto simp: parseTimeToMinutes_def Let_def split: sum.splits)
  have "t = (?parts ! 0) @ '':'' @ (?parts ! 1)"
    using splitOn_two[OF parts] by simp
  then show ?thesis
    using Atoi_ok[OF a(1)] Atoi_ok[OF a(2)] by blast
qed

lemma configMain_dailygoal:
  "configMain (''dailygoal='' @ v) doc =
     (case parseTimeToMinutes v of
        Inl err \<Rightarrow> (Inl err, doc)
      | Inr mins \<Rightarrow>
          (Inr (), (loadStore doc)\<lparr>Config := (Config (loadStore doc))\<lparr>DailyGoalMinutes := mins\<rparr>\<rparr>))"
  by (simp add: configMain_def splitN2_def Let_def)

lemma configMain_workdays:
  "configMain (''workdays='' @ v) doc =
     (case parseWorkDays v of
        Inl err \<Rightarrow> (Inl err, doc)
      | Inr days \<Rightarrow>
          (Inr (), (loadStore doc)\<lparr>Config := (Config (loadStore doc))\<lparr>WorkDays := days\<rparr>\<rparr>))"
  by (simp add: configMain_def splitN2_def Let_def)

lemma no_colon_form:
  "CHR '':'' \<notin> set t \<Longrightarrow> \<not> (\<exists>a b. t = a @ '':'' @ b \<and> isInteger a \<and> isInteger b)"
  by auto

lemma toLower_xyz: "toLower ''xyz'' = ''xyz''"
  by (simp add: toLower.simps toLowerChar_def)

lemma trimSpace_xyz: "trimSpace ''xyz'' = ''xyz''"
  by (simp add: trimSpace_def stripLeading.simps spaceEncodings_def)

lemma parseWorkDays_unicode_examples:
  "parseWorkDays [CHR ''f'', CHR ''r'', CHR 0xC4, CHR 0xB0] = Inr [5]"
  "parseWorkDays [CHR ''m'', CHR ''o'', CHR ''n'', CHR 0xC2, CHR 0xA0] = Inr [1]"
  "parseWorkDays [CHR ''m'', CHR ''o'', CHR ''n'', CHR 0xC3, CHR 0x89] =
     Inl (InvalidDayName [CHR ''m'', CHR ''o'', CHR ''n'', CHR 0xC3, CHR 0x89])"
  by (simp_all add: parseWorkDays_def dayMap_def trimSpace_def stripLeading.simps
      spaceEncodings_def toLower.simps toLowerChar_def)

section \<open>The two overlay orders, and the store two passes of the loop leave\<close>

lemma upsertBin_fresh_any:
  "Bins s k = None \<Longrightarrow> Bins (upsertBin s k w) = (Bins s)(k \<mapsto> (if w then 1 else 0))"
  by (simp add: upsertBin_def binStatus_def)

lemma upsertBin_Ranges: "Ranges (upsertBin s k w) = Ranges s"
  by (simp add: upsertBin_def Let_def)

lemma grid_insert_aligned:
  "\<forall>k \<in> dom ((gridBins n v)(300 * int n \<mapsto> u)). floorToBin k = k"
proof
  fix k assume "k \<in> dom ((gridBins n v)(300 * int n \<mapsto> u))"
  then have "k = 300 * int n \<or> k \<in> dom (gridBins n v)" by auto
  then show "floorToBin k = k"
  proof
    assume "k = 300 * int n"
    then show ?thesis by (simp add: floorToBin_eq)
  next
    assume "k \<in> dom (gridBins n v)"
    then show ?thesis by (rule gridBins_aligned)
  qed
qed

lemma grid_insert_card:
  "card (dom ((gridBins n v)(300 * int n \<mapsto> u))) = Suc n"
  by (subst card_dom_insert) (simp_all add: gridBins_finite gridBins_fresh gridBins_card)

lemma grid_insert_order:
  "iterationOrder ((gridBins n v)(300 * int n \<mapsto> u)) (300 * int n # gridOrder n)"
  by (intro iterationOrder_insert gridOrder_iteration gridBins_fresh) simp

lemma fetchBinsRawLast_apply:
  "fetchBinsRawLast s wstart wend t =
     (case rawInWindow (Bins s) wstart wend t of
        Some v \<Rightarrow> Some v
      | None \<Rightarrow> rangeStatus (Ranges s) wstart wend t)"
  by (simp add: fetchBinsRawLast_def map_add_def overlayRanges_apply split: option.splits)

lemma fetchBinsRawLast_raw_wins:
  "rawInWindow (Bins s) wstart wend t = Some v \<Longrightarrow> fetchBinsRawLast s wstart wend t = Some v"
  by (simp add: fetchBinsRawLast_apply)

lemma compacted_resolves_raw_last:
  assumes "50 \<le> card (dom (Bins s))" and "iterationOrder (Bins s) order"
    and "\<forall>k \<in> dom (Bins s). floorToBin k = k"
  shows "fetchBins (compactBins order s) wstart wend = fetchBinsRawLast s wstart wend"
  by (rule ext) (simp add: fetchBins_compacted[OF assms] fetchBinsRawLast_apply)

lemma fetchBinsRawLast_lossless:
  assumes "iterationOrder (Bins s) order" and "\<forall>k \<in> dom (Bins s). floorToBin k = k"
  shows "fetchBinsRawLast (compactBins order s) wstart wend = fetchBinsRawLast s wstart wend"
proof (cases "card (dom (Bins s)) < 50")
  case True
  then show ?thesis by (simp add: compactBins_noop)
next
  case False
  then have c: "50 \<le> card (dom (Bins s))" by simp
  have b: "Bins (compactBins order s) = Map.empty"
    by (simp add: compactBins_acts[OF c assms(1)])
  show ?thesis
  proof (rule ext)
    fix t
    have "fetchBinsRawLast (compactBins order s) wstart wend t =
          rangeStatus (Ranges (compactBins order s)) wstart wend t"
      by (simp add: fetchBinsRawLast_apply b rawInWindow_def)
    also have "\<dots> = fetchBins (compactBins order s) wstart wend t"
      by (simp add: fetchBins_apply b rawInWindow_def split: option.splits)
    also have "\<dots> = fetchBinsRawLast s wstart wend t"
      by (simp add: compacted_resolves_raw_last[OF c assms])
    finally show "fetchBinsRawLast (compactBins order s) wstart wend t =
                  fetchBinsRawLast s wstart wend t" .
  qed
qed

lemma afterIdleTick_facts:
  "Bins (upsertBin (gridStore 100) 30000 False) = (gridBins 100 1)(30000 \<mapsto> 0)"
  "card (dom (Bins (upsertBin (gridStore 100) 30000 False))) = 101"
  "afterIdleTick = compactBins (30000 # gridOrder 100) (upsertBin (gridStore 100) 30000 False)"
  "Bins afterIdleTick = Map.empty"
  "fetchBins afterIdleTick 30000 30300 30000 = Some 0"
proof -
  let ?s1 = "upsertBin (gridStore 100) 30000 False"
  have f: "Bins (gridStore 100) 30000 = None"
    by (simp add: gridStore_def gridBins_fresh)
  show b: "Bins ?s1 = (gridBins 100 1)(30000 \<mapsto> 0)"
    using upsertBin_fresh_any[OF f, of False] by (simp add: gridStore_def)
  show c: "card (dom (Bins ?s1)) = 101"
    unfolding b using grid_insert_card[of 100 1 0] by simp
  have i: "iterationOrder (Bins ?s1) (30000 # gridOrder 100)"
    unfolding b using grid_insert_order[of 100 1 0] by simp
  have a: "\<forall>k \<in> dom (Bins ?s1). floorToBin k = k"
    unfolding b using grid_insert_aligned[of 100 1 0] by simp
  show t: "afterIdleTick = compactBins (30000 # gridOrder 100) ?s1"
    using c by (simp add: afterIdleTick_def sampleTick_def Let_def)
  have c50: "50 \<le> card (dom (Bins ?s1))" using c by simp
  show "Bins afterIdleTick = Map.empty"
    unfolding t by (simp add: compactBins_acts[OF c50 i])
  show "fetchBins afterIdleTick 30000 30300 30000 = Some 0"
    unfolding t fetchBins_compacted[OF c50 i a] b by (simp add: rawInWindow_def)
qed

section \<open>The claims\<close>

text \<open>
  C1. The claim is that, for a bucket to which both a raw sample and a Range assign a
  status, the resolved status is the raw sample's. \<open>fetchBins\<close> does not do that: it
  copies the raw samples first and overlays the Ranges afterwards, so the Range wins. The
  sampling loop makes such buckets itself. From 100 working samples, a pass without activity
  in the bucket at 30000 adds the 101st sample, idle, and compacts all of them; the next
  pass, in the same bucket, sees activity and upserts a working sample. The bucket then has
  the raw status working and a Range of status idle, and \<open>fetchBins\<close> resolves it to idle,
  where the overlay order of the specification, \<open>fetchBinsRawLast\<close>, gives working.
\<close>

theorem fetchBins_loses_promotion:
  "card (dom (Bins (upsertBin (gridStore 100) 30000 False))) = 101 \<and>
   Bins afterIdleTick = Map.empty \<and>
   Bins afterWorkingTick = [30000 \<mapsto> 1] \<and>
   rawInWindow (Bins afterWorkingTick) 30000 30300 30000 = Some 1 \<and>
   fetchBins (afterWorkingTick\<lparr>Bins := Map.empty\<rparr>) 30000 30300 30000 = Some 0 \<and>
   fetchBins afterWorkingTick 30000 30300 30000 = Some 0 \<and>
   fetchBinsRawLast afterWorkingTick 30000 30300 30000 = Some 1"
proof -
  note f = afterIdleTick_facts
  have u: "upsertBin afterIdleTick 30000 True = afterIdleTick\<lparr>Bins := [30000 \<mapsto> 1]\<rparr>"
    by (simp add: upsertBin_def binStatus_def f(4))
  have w: "afterWorkingTick = afterIdleTick\<lparr>Bins := [30000 \<mapsto> 1]\<rparr>"
    by (simp add: afterWorkingTick_def sampleTick_def Let_def u)
  have r: "rangeStatus (Ranges afterIdleTick) 30000 30300 30000 = Some 0"
    using f(5) by (simp add: fetchBins_apply f(4) rawInWindow_def split: option.splits)
  have raw: "rawInWindow (Bins afterWorkingTick) 30000 30300 30000 = Some 1"
    by (simp add: w rawInWindow_def)
  have e: "fetchBins (afterWorkingTick\<lparr>Bins := Map.empty\<rparr>) 30000 30300 30000 = Some 0"
    by (simp add: fetchBins_apply w r)
  have g: "fetchBins afterWorkingTick 30000 30300 30000 = Some 0"
    by (simp add: fetchBins_apply w r)
  have l: "fetchBinsRawLast afterWorkingTick 30000 30300 30000 = Some 1"
    using raw by (rule fetchBinsRawLast_raw_wins)
  show ?thesis
    using f(2,4) raw e g l by (simp add: w)
qed

text \<open>
  C2. The claim is that resolving a window before and after compaction gives the same
  status for every bucket. \<open>compactBins\<close> does not keep that: a Range already in the store
  overrides a raw sample before compaction, and after it the run made of that sample comes
  later in the list and overrides the Range. \<open>staleStore\<close> holds 100 working samples and an
  idle Range over the bucket at 0; the pass of the loop that upserts the 101st sample
  compacts, and the bucket at 0 resolves to idle before the compaction and to working after
  it. Under the overlay order of the specification it is working both times.
\<close>

theorem compactBins_flips_status:
  "card (dom (Bins (upsertBin staleStore 30000 True))) = 101 \<and>
   sampleTick (30000 # gridOrder 100) staleStore 30000 True =
     compactBins (30000 # gridOrder 100) (upsertBin staleStore 30000 True) \<and>
   fetchBins (upsertBin staleStore 30000 True) 0 300 0 = Some 0 \<and>
   fetchBins (compactBins (30000 # gridOrder 100) (upsertBin staleStore 30000 True)) 0 300 0 =
     Some 1 \<and>
   fetchBinsRawLast (upsertBin staleStore 30000 True) 0 300 0 = Some 1 \<and>
   fetchBinsRawLast (compactBins (30000 # gridOrder 100) (upsertBin staleStore 30000 True))
     0 300 0 = Some 1"
proof -
  let ?s = "upsertBin staleStore 30000 True"
  let ?order = "30000 # gridOrder 100"
  have f: "Bins staleStore 30000 = None"
    by (simp add: staleStore_def gridStore_def gridBins_fresh)
  have b: "Bins ?s = (gridBins 100 1)(30000 \<mapsto> 1)"
    using upsertBin_fresh_any[OF f, of True] by (simp add: staleStore_def gridStore_def)
  have rg: "Ranges ?s = [\<lparr>Start = 0, End = 300, Status = 0, Tag = [], Note = []\<rparr>]"
    by (simp add: upsertBin_Ranges staleStore_def)
  have c: "card (dom (Bins ?s)) = 101"
    unfolding b using grid_insert_card[of 100 1 1] by simp
  have i: "iterationOrder (Bins ?s) ?order"
    unfolding b using grid_insert_order[of 100 1 1] by simp
  have a: "\<forall>k \<in> dom (Bins ?s). floorToBin k = k"
    unfolding b using grid_insert_aligned[of 100 1 1] by simp
  have c50: "50 \<le> card (dom (Bins ?s))" using c by simp
  have t: "sampleTick ?order staleStore 30000 True = compactBins ?order ?s"
    using c by (simp add: sampleTick_def Let_def)
  have raw: "rawInWindow (Bins ?s) 0 300 0 = Some 1"
    unfolding b by (simp add: rawInWindow_def gridBins_def)
  have before: "fetchBins ?s 0 300 0 = Some 0"
    by (simp add: fetchBins_apply rg rangeWrites_def loopWrites_def floorToBin_eq)
  have after: "fetchBins (compactBins ?order ?s) 0 300 0 = Some 1"
    unfolding fetchBins_compacted[OF c50 i a] raw by simp
  have l1: "fetchBinsRawLast ?s 0 300 0 = Some 1"
    using raw by (rule fetchBinsRawLast_raw_wins)
  have l2: "fetchBinsRawLast (compactBins ?order ?s) 0 300 0 = Some 1"
    unfolding fetchBinsRawLast_lossless[OF i a] by (rule l1)
  show ?thesis
    using c t before after l1 l2 by simp
qed

text \<open>
  C3. Sticky promotion of \<open>upsertBin\<close>, for a bucket whose sample, if any, is idle or
  working: idle then working leaves the bucket working, working then idle leaves it
  working; a working bucket stays working under any later sequence of upserts; an upsert to
  a bucket without a sample creates one with status 1 if working and 0 if idle.
\<close>

theorem upsertBin_sticky:
  "(binWellFormed s k \<longrightarrow>
      Bins (upsertBin (upsertBin s k False) k True) k = Some 1 \<and>
      Bins (upsertBin (upsertBin s k True) k False) k = Some 1) \<and>
   (Bins s k = Some 1 \<longrightarrow> Bins (upsertAll s obs) k = Some 1) \<and>
   (Bins s k = None \<longrightarrow> Bins (upsertBin s k w) k = Some (if w then 1 else 0))"
  using upsertAll_keeps[of s k obs]
  by (auto simp: upsertBin_def binStatus_def Let_def binWellFormed_def)

theorem upsertBin_sticky_witness:
  "binWellFormed emptyStore 600 \<and> Bins emptyStore 600 = None \<and>
   Bins (upsertBin (upsertBin emptyStore 600 False) 600 True) 600 = Some 1 \<and>
   Bins (upsertBin (upsertBin emptyStore 600 True) 600 False) 600 = Some 1 \<and>
   Bins (upsertBin emptyStore 600 False) 600 = Some 0 \<and>
   Bins workingStore 600 = Some 1 \<and>
   Bins (upsertAll workingStore [(600, False), (900, True), (600, False)]) 600 = Some 1"
proof -
  have wf: "binWellFormed emptyStore 600" and none: "Bins emptyStore 600 = None"
    by (simp_all add: binWellFormed_def emptyStore_def)
  have one: "Bins workingStore 600 = Some 1"
    by (simp add: workingStore_def)
  show ?thesis
    using upsertBin_sticky[of emptyStore 600 "[]" False]
      upsertBin_sticky[of workingStore 600 "[(600, False), (900, True), (600, False)]" False]
      wf none one
    by simp
qed


text \<open>
  C4. When \<open>compactBins\<close> acts (at least 50 raw samples), whatever the iteration order
  of the map: the exchange sort yields the sampled instants in ascending order; the Ranges
  appended are, in order, one per run of a cut of that sorted list into maximal runs (each
  instant one bucket width after the one before and of the same status, no run linked to
  the next); each Range starts at the first instant of its run and ends one bucket width
  after the last, so a run of one instant gives a Range one bucket wide; and the raw-sample
  map is empty afterwards.
\<close>

theorem compactBins_maximal_runs:
  assumes "50 \<le> card (dom (Bins s))" and "iterationOrder (Bins s) order"
  shows "sortOuter 0 order = sorted_list_of_set (dom (Bins s)) \<and>
     (\<exists>runs. concat runs = sorted_list_of_set (dom (Bins s)) \<and>
        (\<forall>run \<in> set runs. isRun (Bins s) run) \<and>
        maximalRuns (Bins s) runs \<and>
        Ranges (compactBins order s) = Ranges s @ map (rangeOfRun (Bins s)) runs \<and>
        (\<forall>run \<in> set runs.
           Start (rangeOfRun (Bins s) run) = hd run \<and>
           End (rangeOfRun (Bins s) run) = last run + binSeconds \<and>
           End (rangeOfRun (Bins s) run) =
             Start (rangeOfRun (Bins s) run) + binSeconds * int (length run))) \<and>
     Bins (compactBins order s) = Map.empty"
proof -
  let ?runs = "groupRuns (Bins s) (sorted_list_of_set (dom (Bins s)))"
  have w: "End (rangeOfRun (Bins s) run) =
             Start (rangeOfRun (Bins s) run) + binSeconds * int (length run)"
    if "run \<in> set ?runs" for run
    using isRun_props[OF groupRuns_isRun[OF that]]
    by (simp add: rangeOfRun_def binSeconds_def binMinutes_def)
  have "concat ?runs = sorted_list_of_set (dom (Bins s))"
    by (rule groupRuns_concat)
  moreover have "\<forall>run \<in> set ?runs. isRun (Bins s) run"
    using groupRuns_isRun by blast
  moreover have "maximalRuns (Bins s) ?runs"
    by (rule groupRuns_maximal)
  moreover have "Ranges (compactBins order s) = Ranges s @ map (rangeOfRun (Bins s)) ?runs"
    by (simp add: compactBins_acts[OF assms])
  moreover have "\<forall>run \<in> set ?runs.
           Start (rangeOfRun (Bins s) run) = hd run \<and>
           End (rangeOfRun (Bins s) run) = last run + binSeconds \<and>
           End (rangeOfRun (Bins s) run) =
             Start (rangeOfRun (Bins s) run) + binSeconds * int (length run)"
    using w by (simp add: rangeOfRun_def)
  moreover have "Bins (compactBins order s) = Map.empty"
    by (simp add: compactBins_acts[OF assms])
  ultimately show ?thesis
    using sortOuter_order[OF assms(2)] by blast
qed

theorem compactBins_maximal_runs_witness:
  "50 \<le> card (dom (Bins (gridStore 60))) \<and>
   iterationOrder (Bins (gridStore 60)) (gridOrder 60) \<and>
   sortOuter 0 (gridOrder 60) = sorted_list_of_set (dom (Bins (gridStore 60))) \<and>
     (\<exists>runs. concat runs = sorted_list_of_set (dom (Bins (gridStore 60))) \<and>
        (\<forall>run \<in> set runs. isRun (Bins (gridStore 60)) run) \<and>
        maximalRuns (Bins (gridStore 60)) runs \<and>
        Ranges (compactBins (gridOrder 60) (gridStore 60)) =
          Ranges (gridStore 60) @ map (rangeOfRun (Bins (gridStore 60))) runs \<and>
        (\<forall>run \<in> set runs.
           Start (rangeOfRun (Bins (gridStore 60)) run) = hd run \<and>
           End (rangeOfRun (Bins (gridStore 60)) run) = last run + binSeconds \<and>
           End (rangeOfRun (Bins (gridStore 60)) run) =
             Start (rangeOfRun (Bins (gridStore 60)) run) + binSeconds * int (length run))) \<and>
     Bins (compactBins (gridOrder 60) (gridStore 60)) = Map.empty \<and>
   emitRuns [0 \<mapsto> 1, 300 \<mapsto> 1, 600 \<mapsto> 1, 1200 \<mapsto> 1]
       (sortOuter 0 [1200, 300, 0, 600]) 0 [] =
     [\<lparr>Start = 0, End = 900, Status = 1, Tag = [], Note = []\<rparr>,
      \<lparr>Start = 1200, End = 1500, Status = 1, Tag = [], Note = []\<rparr>]"
proof -
  have c: "50 \<le> card (dom (Bins (gridStore 60)))"
    by (simp add: gridStore_def gridBins_card)
  have i: "iterationOrder (Bins (gridStore 60)) (gridOrder 60)"
    by (simp add: gridStore_def gridOrder_iteration)
  show ?thesis
    using compactBins_maximal_runs[OF c i] c i small_compaction by blast
qed

text \<open>
  C5, as amended. One pass of the sampling loop compacts the store exactly when, after the
  upsert, it holds more than 100 raw samples (the raw-sample map is then empty); with 100
  or fewer it leaves the upserted store as it is. \<open>compactBins\<close> is a no-op on a store
  with fewer than 50 raw samples.
\<close>

theorem sampleTick_threshold:
  "(100 < card (dom (Bins (upsertBin s k w))) \<and>
    iterationOrder (Bins (upsertBin s k w)) order \<longrightarrow>
      sampleTick order s k w = compactBins order (upsertBin s k w) \<and>
      Bins (sampleTick order s k w) = Map.empty) \<and>
   (card (dom (Bins (upsertBin s k w))) \<le> 100 \<longrightarrow>
      sampleTick order s k w = upsertBin s k w) \<and>
   (card (dom (Bins s)) < 50 \<longrightarrow> compactBins order s = s)"
proof (intro conjI impI)
  assume a: "100 < card (dom (Bins (upsertBin s k w))) \<and>
    iterationOrder (Bins (upsertBin s k w)) order"
  then show t: "sampleTick order s k w = compactBins order (upsertBin s k w)"
    by (simp add: sampleTick_def Let_def)
  have "50 \<le> card (dom (Bins (upsertBin s k w)))" using a by simp
  then show "Bins (sampleTick order s k w) = Map.empty"
    unfolding t using a by (simp add: compactBins_acts)
next
  assume "card (dom (Bins (upsertBin s k w))) \<le> 100"
  then show "sampleTick order s k w = upsertBin s k w"
    by (simp add: sampleTick_def Let_def)
next
  assume "card (dom (Bins s)) < 50"
  then show "compactBins order s = s" by (rule compactBins_noop)
qed

theorem sampleTick_threshold_witness:
  "100 < card (dom (Bins (upsertBin (gridStore 100) 30000 True))) \<and>
   iterationOrder (Bins (upsertBin (gridStore 100) 30000 True)) (30000 # gridOrder 100) \<and>
   sampleTick (30000 # gridOrder 100) (gridStore 100) 30000 True =
     compactBins (30000 # gridOrder 100) (upsertBin (gridStore 100) 30000 True) \<and>
   Bins (sampleTick (30000 # gridOrder 100) (gridStore 100) 30000 True) = Map.empty \<and>
   card (dom (Bins (upsertBin emptyStore 0 True))) \<le> 100 \<and>
   sampleTick [0] emptyStore 0 True = upsertBin emptyStore 0 True \<and>
   card (dom (Bins emptyStore)) < 50 \<and>
   compactBins [] emptyStore = emptyStore"
proof -
  have g: "100 < card (dom (Bins (upsertBin (gridStore 100) 30000 True)))"
    "iterationOrder (Bins (upsertBin (gridStore 100) 30000 True)) (30000 # gridOrder 100)"
    using grid_upsert_card[of 100] grid_upsert_order[of 100] by simp_all
  have e: "card (dom (Bins (upsertBin emptyStore 0 True))) \<le> 100"
    "card (dom (Bins emptyStore)) < 50"
    by (simp_all add: emptyStore_def upsertBin_def binStatus_def)
  show ?thesis
    using sampleTick_threshold[of "gridStore 100" 30000 True "30000 # gridOrder 100"]
      sampleTick_threshold[of emptyStore 0 True "[0]"]
      sampleTick_threshold[of emptyStore 0 True "[]"] g e
    by blast
qed

text \<open>
  C5, as stated, fails at a count of exactly 100: the store holds 99 raw samples, the
  upsert adds the hundredth, and the pass returns the store uncompacted, its raw samples
  still there, whereas \<open>compactBins\<close> on it would have emptied the map.
\<close>

theorem sampleTick_at_100_counterexample:
  "card (dom (Bins (upsertBin (gridStore 99) 29700 True))) = 100 \<and>
   iterationOrder (Bins (upsertBin (gridStore 99) 29700 True)) (29700 # gridOrder 99) \<and>
   sampleTick (29700 # gridOrder 99) (gridStore 99) 29700 True = upsertBin (gridStore 99) 29700 True \<and>
   Bins (sampleTick (29700 # gridOrder 99) (gridStore 99) 29700 True) 29700 = Some 1 \<and>
   Bins (compactBins (29700 # gridOrder 99) (upsertBin (gridStore 99) 29700 True)) 29700 = None"
proof -
  have b: "Bins (upsertBin (gridStore 99) 29700 True) = (gridBins 99 1)(29700 \<mapsto> 1)"
    using grid_upsert_bins[of 99] by simp
  have g: "card (dom (Bins (upsertBin (gridStore 99) 29700 True))) = 100"
    "iterationOrder (Bins (upsertBin (gridStore 99) 29700 True)) (29700 # gridOrder 99)"
    using grid_upsert_card[of 99] grid_upsert_order[of 99] by simp_all
  have t: "sampleTick (29700 # gridOrder 99) (gridStore 99) 29700 True = upsertBin (gridStore 99) 29700 True"
    using g(1) by (simp add: sampleTick_def Let_def)
  have "50 \<le> card (dom (Bins (upsertBin (gridStore 99) 29700 True)))"
    using g(1) by simp
  then have c: "Bins (compactBins (29700 # gridOrder 99) (upsertBin (gridStore 99) 29700 True)) = Map.empty"
    using compactBins_acts[OF _ g(2)] by simp
  show ?thesis
    unfolding t c using g by (simp add: b)
qed

text \<open>
  C6. For every store and window, the resolved sequence has one entry per bucket start
  from \<open>floorToBin start\<close> up to, not including, \<open>floorToBin end\<close>: its instants are
  exactly the grid points of that interval, each once, in ascending order one bucket width
  apart; every one of them has an entry in the status map; the status of an entry is what
  \<open>fetchBins\<close> resolves for the bucket, and idle where neither a raw sample nor a Range
  supplies one. \<open>todayTotals\<close> accordingly counts every bucket of the day so far as
  working or idle.
\<close>

theorem resolved_grid_complete:
  "map fst (resolvedSeq s wstart wend) = windowSeq wstart wend \<and>
   (\<forall>t. t \<in> set (windowSeq wstart wend) \<longleftrightarrow>
          (onGrid (floorToBin wstart) t \<and> t < floorToBin wend)) \<and>
   distinct (windowSeq wstart wend) \<and>
   (\<forall>i. i < length (windowSeq wstart wend) \<longrightarrow>
          windowSeq wstart wend ! i = floorToBin wstart + binSeconds * int i) \<and>
   (\<forall>t \<in> set (windowSeq wstart wend). statusMap s wstart wend t \<noteq> None) \<and>
   resolvedSeq s wstart wend =
     map (\<lambda>t. (t, case fetchBins s wstart wend t of None \<Rightarrow> 0 | Some v \<Rightarrow> v))
       (windowSeq wstart wend) \<and>
   fst (todayTotals s now) + snd (todayTotals s now) =
     binMinutes * int (length (windowSeq (dayStart now) now))"
proof (intro conjI)
  show "map fst (resolvedSeq s wstart wend) = windowSeq wstart wend"
    by (simp add: resolvedSeq_def comp_def)
  show "\<forall>t. t \<in> set (windowSeq wstart wend) \<longleftrightarrow>
          (onGrid (floorToBin wstart) t \<and> t < floorToBin wend)"
    by (simp add: windowSeq_def binSeq_set)
  show "distinct (windowSeq wstart wend)"
    by (simp add: windowSeq_def binSeq_distinct)
  show "\<forall>i. i < length (windowSeq wstart wend) \<longrightarrow>
          windowSeq wstart wend ! i = floorToBin wstart + binSeconds * int i"
    by (simp add: windowSeq_def binSeq_nth)
  show "\<forall>t \<in> set (windowSeq wstart wend). statusMap s wstart wend t \<noteq> None"
    by (simp add: statusMap_apply split: option.splits)
  show "resolvedSeq s wstart wend =
     map (\<lambda>t. (t, case fetchBins s wstart wend t of None \<Rightarrow> 0 | Some v \<Rightarrow> v))
       (windowSeq wstart wend)"
    by (rule resolvedSeq_status)
  show "fst (todayTotals s now) + snd (todayTotals s now) =
     binMinutes * int (length (windowSeq (dayStart now) now))"
    by (simp add: todayTotals_def Let_def totalsLoop_sum)
qed

theorem resolved_grid_complete_witness:
  "windowSeq 0 1500 = [0, 300, 600, 900, 1200] \<and>
   resolvedSeq emptyStore 0 1500 = [(0, 0), (300, 0), (600, 0), (900, 0), (1200, 0)] \<and>
   resolvedSeq focusStore 0 1500 = [(0, 0), (300, 0), (600, 1), (900, 1), (1200, 0)] \<and>
   statusMap emptyStore 0 1500 600 \<noteq> None \<and>
   todayTotals focusStore 1500 = (10, 15)"
proof -
  have e: "fetchBins emptyStore 0 1500 = Map.empty"
    by (simp add: fetchBins_def emptyStore_def rawInWindow_def)
  have f: "fetchBins focusStore 0 1500 = [600 \<mapsto> 1, 900 \<mapsto> 1]"
    by (auto simp: fetchBins_def focusStore_def rawInWindow_def)
  have d: "dayStart 1500 = 0" by (simp add: dayStart_def)
  have t: "todayTotals focusStore 1500 = (10, 15)"
    by (simp add: todayTotals_def d windowSeq_0_1500 binStatus_def statusMap_apply f binMinutes_def)
  show ?thesis
    using resolved_grid_complete[of emptyStore 0 1500 1500]
      resolved_grid_complete[of focusStore 0 1500 1500]
    by (simp add: windowSeq_0_1500 e f t)
qed

text \<open>
  C7. The day sequence idle, idle, working, working, idle gives two context switches and a
  longest focus of two bucket widths, ten minutes. For every store and instant,
  \<open>contextSwitches\<close> is the number of positions of today's resolved sequence whose
  status differs from that of the next position (the first bucket, compared with itself,
  adds nothing), and \<open>longestFocus\<close> is \<open>binMinutes\<close> times the length of the longest
  block of consecutive working buckets: a block of that length occurs and none is longer.
\<close>

theorem calculateFocusStats_spec:
  "dayStatuses focusStore 1500 = [0, 0, 1, 1, 0] \<and>
   calculateFocusStats focusStore 1500 = (2 * binMinutes, 2) \<and> 2 * binMinutes = 10 \<and>
   snd (calculateFocusStats s now) =
     int (card {i. Suc i < length (dayStatuses s now) \<and>
                   dayStatuses s now ! i \<noteq> dayStatuses s now ! Suc i}) \<and>
   (\<exists>n pre post.
      fst (calculateFocusStats s now) = binMinutes * int n \<and>
      dayStatuses s now = pre @ replicate n 1 @ post \<and>
      (\<forall>pre' post' m. dayStatuses s now = pre' @ replicate m 1 @ post' \<longrightarrow> m \<le> n))"
proof (intro conjI)
  show st: "dayStatuses focusStore 1500 = [0, 0, 1, 1, 0]"
    by (rule focusStore_statuses)
  show "calculateFocusStats focusStore 1500 = (2 * binMinutes, 2)"
    using st unfolding calculateFocusStats_result dayStatuses_def
    by (simp add: countSwitches_def)
  show "2 * binMinutes = 10" by (simp add: binMinutes_def)
  show "snd (calculateFocusStats s now) =
     int (card {i. Suc i < length (dayStatuses s now) \<and>
                   dayStatuses s now ! i \<noteq> dayStatuses s now ! Suc i})"
    unfolding calculateFocusStats_result dayStatuses_def
    by (simp add: countSwitches_card)
  let ?n = "runsMax 0 (dayStatuses s now)"
  obtain pre post where b: "dayStatuses s now = pre @ replicate ?n 1 @ post"
    using runsMax_0_attained by blast
  have "fst (calculateFocusStats s now) = binMinutes * int ?n"
    unfolding calculateFocusStats_result dayStatuses_def by simp
  moreover have "\<forall>pre' post' m. dayStatuses s now = pre' @ replicate m 1 @ post' \<longrightarrow> m \<le> ?n"
    using runsMax_block by blast
  ultimately show "\<exists>n pre post.
      fst (calculateFocusStats s now) = binMinutes * int n \<and>
      dayStatuses s now = pre @ replicate n 1 @ post \<and>
      (\<forall>pre' post' m. dayStatuses s now = pre' @ replicate m 1 @ post' \<longrightarrow> m \<le> n)"
    using b by blast
qed

theorem calculateFocusStats_spec_witness:
  "calculateFocusStats focusStore 1500 = (10, 2) \<and>
   snd (calculateFocusStats focusStore 1500) =
     int (card {i. Suc i < length (dayStatuses focusStore 1500) \<and>
                   dayStatuses focusStore 1500 ! i \<noteq> dayStatuses focusStore 1500 ! Suc i}) \<and>
   (\<exists>n pre post.
      fst (calculateFocusStats focusStore 1500) = binMinutes * int n \<and>
      dayStatuses focusStore 1500 = pre @ replicate n 1 @ post \<and>
      (\<forall>pre' post' m. dayStatuses focusStore 1500 = pre' @ replicate m 1 @ post' \<longrightarrow> m \<le> n))"
proof -
  note t = calculateFocusStats_spec[of focusStore 1500]
  from t have "calculateFocusStats focusStore 1500 = (2 * binMinutes, 2)" "2 * binMinutes = 10"
    by blast+
  then have a: "calculateFocusStats focusStore 1500 = (10, 2)" by simp
  show ?thesis
    using t a by blast
qed

text \<open>
  C8, as amended. For non-negative \<open>workMins\<close> and \<open>goalMins\<close> with \<open>workMins * 100\<close>
  representable as a 64-bit \<open>int\<close>, \<open>formatPercentage\<close> returns \<open>0%\<close> when the goal is
  zero and otherwise the decimal rendering of \<open>workMins * 100 div goalMins\<close> followed by
  \<open>% of\<close> and the human-formatted goal; \<open>formatPercentage 240 480\<close> is
  \<open>50% of 8 hrs\<close> and \<open>formatPercentage 0 0\<close> is \<open>0%\<close>.
\<close>

theorem formatPercentage_in_range:
  assumes "0 \<le> workMins" and "0 \<le> goalMins" and "goalMins < 2 ^ 63"
    and "workMins * 100 < 2 ^ 63"
  shows "formatPercentage workMins goalMins =
           (if goalMins = 0 then ''0%''
            else showInt (workMins * 100 div goalMins) @ ''% of '' @ humanDuration goalMins) \<and>
         formatPercentage 240 480 = ''50% of 8 hrs'' \<and>
         formatPercentage 0 0 = ''0%''"
proof -
  have p: "0 \<le> workMins * 100" using assms(1) by simp
  have w: "wrap64 (workMins * 100) = workMins * 100"
    using p assms(4) by (intro wrap64_id) simp_all
  have d: "workMins * 100 sdiv goalMins = workMins * 100 div goalMins"
    using p assms(2) by (rule sdiv_nonneg)
  have q0: "0 \<le> workMins * 100 div goalMins"
    using p assms(2) by (simp add: pos_imp_zdiv_nonneg_iff div_int_pos_iff)
  have "workMins * 100 div goalMins \<le> workMins * 100"
  proof (cases "goalMins = 0")
    case True
    then show ?thesis using p by simp
  next
    case False
    then have "1 \<le> goalMins" using assms(2) by simp
    then have "workMins * 100 div goalMins \<le> workMins * 100 div 1"
      using p by (intro zdiv_mono2) simp_all
    then show ?thesis by simp
  qed
  then have q: "wrap64 (workMins * 100 div goalMins) = workMins * 100 div goalMins"
    using q0 assms(4) by (intro wrap64_id) simp_all
  have g: "formatPercentage workMins goalMins =
           (if goalMins = 0 then ''0%''
            else showInt (workMins * 100 div goalMins) @ ''% of '' @ humanDuration goalMins)"
    by (simp add: formatPercentage_def w d q)
  have e1: "formatPercentage 240 480 = ''50% of 8 hrs''"
    by (simp add: formatPercentage_def humanDuration_def wrap64_def showInt_def showNat.simps
        digitChar_def signed_divide_int_def signed_modulo_int_def Let_def)
  have e2: "formatPercentage 0 0 = ''0%''"
    by (simp add: formatPercentage_def)
  show ?thesis using g e1 e2 by blast
qed

theorem formatPercentage_in_range_witness:
  "(0::int) \<le> 240 \<and> (0::int) \<le> 480 \<and> (480::int) < 2 ^ 63 \<and> (240::int) * 100 < 2 ^ 63 \<and>
   formatPercentage 240 480 = showInt (240 * 100 div 480) @ ''% of '' @ humanDuration 480 \<and>
   showInt (240 * 100 div 480) = ''50'' \<and> humanDuration 480 = ''8 hrs'' \<and>
   formatPercentage 240 480 = ''50% of 8 hrs'' \<and>
   formatPercentage 0 0 = ''0%''"
proof -
  have h: "(0::int) \<le> 240" "(0::int) \<le> 480" "(480::int) < 2 ^ 63" "(240::int) * 100 < 2 ^ 63"
    by simp_all
  have s: "showInt (240 * 100 div 480) = ''50''" "humanDuration 480 = ''8 hrs''"
    by (simp_all add: humanDuration_def wrap64_def showInt_def showNat.simps
        digitChar_def signed_divide_int_def signed_modulo_int_def Let_def)
  show ?thesis
    using formatPercentage_in_range[OF h] h s by simp
qed

text \<open>
  C8, as stated for all non-negative arguments, fails where the product overflows:
  \<open>92233720368547759 * 100\<close> exceeds \<open>2 ^ 63 - 1\<close>, wraps to a negative number, and the
  percentage printed is negative.
\<close>

theorem formatPercentage_overflow_counterexample:
  "(0::int) \<le> 92233720368547759 \<and> (92233720368547759::int) < 2 ^ 63 \<and>
   formatPercentage 92233720368547759 1 = ''-9223372036854775716% of 1 min'' \<and>
   showInt (92233720368547759 * 100 div 1) @ ''% of '' @ humanDuration 1 =
     ''9223372036854775900% of 1 min'' \<and>
   formatPercentage 92233720368547759 1 \<noteq>
     showInt (92233720368547759 * 100 div 1) @ ''% of '' @ humanDuration 1"
  by (simp add: formatPercentage_def humanDuration_def wrap64_def showInt_def showNat.simps
      digitChar_def signed_divide_int_def signed_modulo_int_def Let_def)

text \<open>
  C9. A daily-goal string that is not two integer parts joined by a colon, and a workday
  string with a token that names no day, are both rejected: the parser returns an error,
  and the \<open>--config\<close> run ends with that error and the persisted document, hence the
  configuration in effect, as it was.
\<close>

theorem invalid_config_rejected:
  "(\<not> (\<exists>a b. timeStr = a @ '':'' @ b \<and> isInteger a \<and> isInteger b) \<longrightarrow>
      (\<exists>err. parseTimeToMinutes timeStr = Inl err \<and>
             configMain (''dailygoal='' @ timeStr) doc = (Inl err, doc))) \<and>
   ((\<exists>tok \<in> set (tokens workDaysStr). \<not> namesDay tok) \<longrightarrow>
      (\<exists>err. parseWorkDays workDaysStr = Inl err \<and>
             configMain (''workdays='' @ workDaysStr) doc = (Inl err, doc)))"
proof (intro conjI impI)
  assume bad: "\<not> (\<exists>a b. timeStr = a @ '':'' @ b \<and> isInteger a \<and> isInteger b)"
  obtain err where e: "parseTimeToMinutes timeStr = Inl err"
    using parseTimeToMinutes_ok[of timeStr] bad by (cases "parseTimeToMinutes timeStr") auto
  have "configMain (''dailygoal='' @ timeStr) doc = (Inl err, doc)"
    unfolding configMain_dailygoal e by simp
  then show "\<exists>err. parseTimeToMinutes timeStr = Inl err \<and>
             configMain (''dailygoal='' @ timeStr) doc = (Inl err, doc)"
    using e by blast
next
  assume bad: "\<exists>tok \<in> set (tokens workDaysStr). \<not> namesDay tok"
  obtain err where e: "parseWorkDays workDaysStr = Inl err"
    using parseWorkDays_ok[of workDaysStr] bad by (cases "parseWorkDays workDaysStr") auto
  have "configMain (''workdays='' @ workDaysStr) doc = (Inl err, doc)"
    unfolding configMain_workdays e by simp
  then show "\<exists>err. parseWorkDays workDaysStr = Inl err \<and>
             configMain (''workdays='' @ workDaysStr) doc = (Inl err, doc)"
    using e by blast
qed

theorem invalid_config_rejected_witness:
  "\<not> (\<exists>a b. ''0730'' = a @ '':'' @ b \<and> isInteger a \<and> isInteger b) \<and>
   (\<exists>tok \<in> set (tokens ''mon,xyz''). \<not> namesDay tok) \<and>
   (\<exists>err. parseTimeToMinutes ''0730'' = Inl err \<and>
          configMain ''dailygoal=0730'' customStore = (Inl err, customStore)) \<and>
   (\<exists>err. parseWorkDays ''mon,xyz'' = Inl err \<and>
          configMain ''workdays=mon,xyz'' customStore = (Inl err, customStore)) \<and>
   DailyGoalMinutes (Config customStore) = 450 \<and> WorkDays (Config customStore) = [3, 4, 5]"
proof -
  have t: "\<not> (\<exists>a b. ''0730'' = a @ '':'' @ b \<and> isInteger a \<and> isInteger b)"
    by (rule no_colon_form) simp
  have "\<not> namesDay ''xyz''"
    by (simp add: namesDay_def trimSpace_xyz toLower_xyz)
  then have w: "\<exists>tok \<in> set (tokens ''mon,xyz''). \<not> namesDay tok"
    by simp
  show ?thesis
    using invalid_config_rejected[of "''0730''" customStore "''mon,xyz''"] t w
    by (simp add: customStore_def)
qed

text \<open>
  C10. For a workday range whose two parts name days, the first later in the week than the
  second, \<open>parseWorkDays\<close> returns the empty list and no error; the \<open>--config\<close> run
  accepts the update and stores an empty workday list.
\<close>

theorem parseWorkDays_reversed_range:
  assumes "dayMap (toLower x) = Some a" and "dayMap (toLower y) = Some b" and "b < a"
  shows "parseWorkDays (x @ ''-'' @ y) = Inr [] \<and>
         configMain (''workdays='' @ x @ ''-'' @ y) doc =
           (Inr (), (loadStore doc)\<lparr>Config := (Config (loadStore doc))\<lparr>WorkDays := []\<rparr>\<rparr>) \<and>
         WorkDays (Config (snd (configMain (''workdays='' @ x @ ''-'' @ y) doc))) = []"
proof -
  have nx: "CHR ''-'' \<notin> set x" and ny: "CHR ''-'' \<notin> set y"
    using day_no_sep[of x] day_no_sep[of y] assms by auto
  have sp: "splitOn CHR ''-'' (x @ CHR ''-'' # y) = [x, y]"
    using nx ny by (simp add: splitOn_append splitOn_no_sep)
  have p: "parseWorkDays (x @ ''-'' @ y) = Inr []"
    using assms by (simp add: parseWorkDays_def sp Let_def)
  have c: "configMain (''workdays='' @ x @ ''-'' @ y) doc =
           (Inr (), (loadStore doc)\<lparr>Config := (Config (loadStore doc))\<lparr>WorkDays := []\<rparr>\<rparr>)"
    unfolding configMain_workdays p by simp
  show ?thesis using p c by simp
qed

theorem parseWorkDays_reversed_range_witness:
  "dayMap (toLower ''fri'') = Some 5 \<and> dayMap (toLower ''Mon'') = Some 1 \<and> (1::int) < 5 \<and>
   parseWorkDays ''fri-Mon'' = Inr [] \<and>
   fst (configMain ''workdays=fri-Mon'' customStore) = Inr () \<and>
   WorkDays (Config (snd (configMain ''workdays=fri-Mon'' customStore))) = []"
proof -
  have d: "dayMap (toLower ''fri'') = Some 5" "dayMap (toLower ''Mon'') = Some 1"
    by (simp_all add: dayMap_def toLower.simps toLowerChar_def)
  have l: "(1::int) < 5" by simp
  show ?thesis
    using parseWorkDays_reversed_range[OF d l, of customStore] d by simp
qed

end
